theory Spec2Isabelle
  imports Main "HOL-Library.Sublist"
begin

section \<open>Strings and regular expressions of the source\<close>

text \<open>
  A line of a document is a \<^typ>\<open>string\<close>: the list of its UTF-16 code units, here the code
  units below 256 (a \<^typ>\<open>char\<close> is eight bits wide).  A document is the list of its lines,
  in the order \<open>lineAt(doc, 0)\<close>, \<open>lineAt(doc, 1)\<close>, ... returns them (line terminators
  removed), so \<open>doc.lineCount\<close> is the length of the list.
\<close>

type_synonym document = "string list"

definition lineAt :: "document \<Rightarrow> nat \<Rightarrow> string" where
  "lineAt doc i = (if i < length doc then doc ! i else [])"

text \<open>
  The white space of JavaScript (\<open>\s\<close>, and what \<open>trim\<close> removes) below code unit 256:
  TAB, LF, VT, FF, CR, SPACE and NBSP.  Word characters (\<open>\w\<close>) are the ASCII letters,
  the digits and the underscore; \<open>.\<close> is every character except LF and CR.
\<close>

definition js_space :: string where
  "js_space = [CHR 0x09, CHR 0x0A, CHR 0x0B, CHR 0x0C, CHR 0x0D, CHR 0x20, CHR 0xA0]"

definition js_word :: string where
  "js_word = ''abcdefghijklmnopqrstuvwxyzABCDEFGHIJKLMNOPQRSTUVWXYZ0123456789_''"

definition js_digit :: string where
  "js_digit = ''0123456789''"

definition js_newline :: string where
  "js_newline = [CHR 0x0A, CHR 0x0D]"

definition is_space :: "char \<Rightarrow> bool" where
  "is_space c = (c \<in> set js_space)"

definition trimStart :: "string \<Rightarrow> string" where
  "trimStart s = dropWhile is_space s"

definition trimEnd :: "string \<Rightarrow> string" where
  "trimEnd s = rev (dropWhile is_space (rev s))"

definition trim :: "string \<Rightarrow> string" where
  "trim s = trimEnd (trimStart s)"

definition startsWith :: "string \<Rightarrow> string \<Rightarrow> bool" where
  "startsWith s t = prefix t s"

definition endsWith :: "string \<Rightarrow> string \<Rightarrow> bool" where
  "endsWith s t = prefix (rev t) (rev s)"

text \<open>\<open>s.indexOf(t)\<close>: the first index at which \<open>t\<close> occurs in \<open>s\<close>, or none (-1).\<close>

fun indexOf :: "string \<Rightarrow> string \<Rightarrow> nat option" where
  "indexOf [] t = (if t = [] then Some 0 else None)"
| "indexOf (c # cs) t =
     (if prefix t (c # cs) then Some 0 else map_option Suc (indexOf cs t))"

text \<open>
  The regular expressions of the source are terms of \<open>rx\<close>.  A character class lists the
  characters it accepts (\<open>OneOf\<close>) or rejects (\<open>NoneOf\<close>); the only repetitions the source
  uses are \<open>*\<close> and \<open>+\<close> of one character class and \<open>?\<close> of a group.  \<open>Wb\<close> is \<open>\b\<close> and
  \<open>Eoi\<close> is \<open>$\<close> (no \<open>m\<close> flag anywhere in the source: the end of the input).
\<close>

datatype cc = OneOf string | NoneOf string

fun cc_ok :: "cc \<Rightarrow> char \<Rightarrow> bool" where
  "cc_ok (OneOf cs) c = (c \<in> set cs)"
| "cc_ok (NoneOf cs) c = (c \<notin> set cs)"

datatype rx = Eps | Cls cc | Seq rx rx | Alt rx rx | Star cc | Opt rx | Wb | Eoi

text \<open>
  A position in the input is the character just before it (none at the start) and the
  rest of the input.  \<open>rmatch r p\<close> lists the positions at which a match of \<open>r\<close> that starts
  at \<open>p\<close> can end, in the order in which a backtracking matcher tries them (a greedy
  repetition tries the longest first).  \<open>test\<close> succeeds iff some match exists.
\<close>

type_synonym pos = "char option \<times> string"

fun is_word_at :: "char option \<Rightarrow> bool" where
  "is_word_at None = False"
| "is_word_at (Some c) = (c \<in> set js_word)"

fun next_char :: "string \<Rightarrow> char option" where
  "next_char [] = None"
| "next_char (c # cs) = Some c"

fun star_cls :: "cc \<Rightarrow> char option \<Rightarrow> string \<Rightarrow> pos list" where
  "star_cls k b [] = [(b, [])]"
| "star_cls k b (c # cs) =
     (if cc_ok k c then star_cls k (Some c) cs @ [(b, c # cs)] else [(b, c # cs)])"

fun rmatch :: "rx \<Rightarrow> pos \<Rightarrow> pos list" where
  "rmatch Eps p = [p]"
| "rmatch (Cls k) p =
     (case snd p of [] \<Rightarrow> [] | c # cs \<Rightarrow> if cc_ok k c then [(Some c, cs)] else [])"
| "rmatch (Seq r1 r2) p = concat (map (rmatch r2) (rmatch r1 p))"
| "rmatch (Alt r1 r2) p = rmatch r1 p @ rmatch r2 p"
| "rmatch (Star k) p = star_cls k (fst p) (snd p)"
| "rmatch (Opt r) p = rmatch r p @ [p]"
| "rmatch Wb p = (if is_word_at (fst p) \<noteq> is_word_at (next_char (snd p)) then [p] else [])"
| "rmatch Eoi p = (if snd p = [] then [p] else [])"

text \<open>A pattern that begins with \<open>^\<close> is matched from the start of the input only.\<close>

definition test_anchored :: "rx \<Rightarrow> string \<Rightarrow> bool" where
  "test_anchored r s = (rmatch r (None, s) \<noteq> [])"

text \<open>A pattern without \<open>^\<close> is tried at every position, from left to right.\<close>

fun positions :: "char option \<Rightarrow> string \<Rightarrow> pos list" where
  "positions b [] = [(b, [])]"
| "positions b (c # cs) = (b, c # cs) # positions (Some c) cs"

definition test_anywhere :: "rx \<Rightarrow> string \<Rightarrow> bool" where
  "test_anywhere r s = list_ex (\<lambda>p. rmatch r p \<noteq> []) (positions None s)"

fun lit :: "string \<Rightarrow> rx" where
  "lit [] = Eps"
| "lit (c # cs) = Seq (Cls (OneOf [c])) (lit cs)"

text \<open>With the \<open>i\<close> flag a lower-case letter of the pattern also matches its upper case.\<close>

definition upcase :: "char \<Rightarrow> char" where
  "upcase c = (case map_of (zip ''abcdefghijklmnopqrstuvwxyz'' ''ABCDEFGHIJKLMNOPQRSTUVWXYZ'') c of
                 Some u \<Rightarrow> u | None \<Rightarrow> c)"

fun liti :: "string \<Rightarrow> rx" where
  "liti [] = Eps"
| "liti (c # cs) = Seq (Cls (OneOf [c, upcase c])) (liti cs)"

fun seqs :: "rx list \<Rightarrow> rx" where
  "seqs [] = Eps"
| "seqs [r] = r"
| "seqs (r # rs) = Seq r (seqs rs)"

fun alts :: "rx list \<Rightarrow> rx" where
  "alts [] = Cls (OneOf [])"
| "alts [r] = r"
| "alts (r # rs) = Alt r (alts rs)"

definition sp :: cc where "sp = OneOf js_space"
definition wd :: cc where "wd = OneOf js_word"
definition dg :: cc where "dg = OneOf js_digit"
definition dot :: cc where "dot = NoneOf js_newline"

definition plus :: "cc \<Rightarrow> rx" where
  "plus k = Seq (Cls k) (Star k)"

section \<open>server.ts: line predicates\<close>

text \<open>\<open>/^\s*start\s+task\b/\<close> and \<open>/^\s*end\s+task\b/\<close>\<close>

definition startTaskRe :: rx where
  "startTaskRe = seqs [Star sp, lit ''start'', plus sp, lit ''task'', Wb]"

definition endTaskRe :: rx where
  "endTaskRe = seqs [Star sp, lit ''end'', plus sp, lit ''task'', Wb]"

definition isStartTask :: "string \<Rightarrow> bool" where
  "isStartTask line = test_anchored startTaskRe line"

definition isEndTask :: "string \<Rightarrow> bool" where
  "isEndTask line = test_anchored endTaskRe line"

text \<open>
  \<open>/^(when\b.*|on\s+\w+|if\b.*|elseif\b.*|else\b.*|repeat\b.*|while\b.*|for\b.*|parallel\b.*|template\s+task\b.*)$/\<close>
\<close>

definition colonCandidateRe :: rx where
  "colonCandidateRe = seqs [alts [
      seqs [lit ''when'', Wb, Star dot],
      seqs [lit ''on'', plus sp, plus wd],
      seqs [lit ''if'', Wb, Star dot],
      seqs [lit ''elseif'', Wb, Star dot],
      seqs [lit ''else'', Wb, Star dot],
      seqs [lit ''repeat'', Wb, Star dot],
      seqs [lit ''while'', Wb, Star dot],
      seqs [lit ''for'', Wb, Star dot],
      seqs [lit ''parallel'', Wb, Star dot],
      seqs [lit ''template'', plus sp, lit ''task'', Wb, Star dot]], Eoi]"

definition endsWithColonCandidate :: "string \<Rightarrow> bool" where
  "endsWithColonCandidate line =
     (let trimmed = trim line in
      if startsWith trimmed ''//'' \<or> length trimmed = 0 then False
      else test_anchored colonCandidateRe trimmed)"

text \<open>
  The header pattern of the folding and formatting passes:
  \<open>/^(when\b.*:|on\s+\w+\s*:|if\b.*:|elseif\b.*:|else\s*:|repeat\b.*:|while\b.*:|for\b.*:|parallel\s*:|template\s+task\b.*:)$/\<close>
\<close>

definition elseifHeader :: rx where
  "elseifHeader = seqs [lit ''elseif'', Wb, Star dot, lit '':'']"

definition elseHeader :: rx where
  "elseHeader = seqs [lit ''else'', Star sp, lit '':'']"

definition ifHeader :: rx where
  "ifHeader = seqs [lit ''if'', Wb, Star dot, lit '':'']"

definition blockHeaderRe :: rx where
  "blockHeaderRe = seqs [alts [
      seqs [lit ''when'', Wb, Star dot, lit '':''],
      seqs [lit ''on'', plus sp, plus wd, Star sp, lit '':''],
      ifHeader,
      elseifHeader,
      elseHeader,
      seqs [lit ''repeat'', Wb, Star dot, lit '':''],
      seqs [lit ''while'', Wb, Star dot, lit '':''],
      seqs [lit ''for'', Wb, Star dot, lit '':''],
      seqs [lit ''parallel'', Star sp, lit '':''],
      seqs [lit ''template'', plus sp, lit ''task'', Wb, Star dot, lit '':'']], Eoi]"

definition isBlockHeader :: "string \<Rightarrow> bool" where
  "isBlockHeader t = test_anchored blockHeaderRe t"

text \<open>\<open>/^\s*$/\<close>\<close>

definition blankRe :: rx where
  "blankRe = seqs [Star sp, Eoi]"

definition isBlank :: "string \<Rightarrow> bool" where
  "isBlank t = test_anchored blankRe t"


section \<open>server.ts: configuration and diagnostics\<close>

datatype LintLevel = Off | LintHint | LintWarning | LintError

text \<open>
  \<open>RoopSettings\<close>, with its nested objects flattened: \<open>format.enabled\<close>,
  \<open>format.indentSize\<close>, \<open>lint.missingColon.severity\<close>, \<open>lint.unbalancedTask.severity\<close>
  and \<open>completion.extraKeywords\<close> (an absent list is the empty one).
\<close>

record RoopSettings =
  formatEnabled :: bool
  indentSize :: int
  missingColonSeverity :: LintLevel
  unbalancedTaskSeverity :: LintLevel
  extraKeywords :: "string list"

definition defaultSettings :: RoopSettings where
  "defaultSettings = \<lparr> formatEnabled = True, indentSize = 2,
     missingColonSeverity = LintHint, unbalancedTaskSeverity = LintWarning,
     extraKeywords = [] \<rparr>"

datatype DiagnosticSeverity = SevError | SevWarning | SevInformation | SevHint

fun toSeverity :: "LintLevel \<Rightarrow> DiagnosticSeverity option" where
  "toSeverity LintHint = Some SevHint"
| "toSeverity LintWarning = Some SevWarning"
| "toSeverity LintError = Some SevError"
| "toSeverity Off = None"

record Range =
  startLine :: int
  startCharacter :: int
  endLine :: int
  endCharacter :: int

definition makeRange :: "int \<Rightarrow> int \<Rightarrow> int \<Rightarrow> Range" where
  "makeRange line startChar endChar =
     \<lparr> startLine = line, startCharacter = startChar, endLine = line, endCharacter = endChar \<rparr>"

text \<open>
  The message of a diagnostic is one of three texts of the server:
  \<open>Block header should end with ':'\<close>,
  \<open>Unbalanced tasks: found s 'start task' and e 'end task'.\<close> and
  \<open>Unrecognized leading verb 'v'.\<close>; the constructor keeps the values they quote.
\<close>

datatype Message = MissingColon | UnbalancedTasks nat nat | UnrecognizedVerb string

record Diagnostic =
  severity :: "DiagnosticSeverity option"
  message :: Message
  drange :: Range

definition DIRECTIVES :: "string list" where
  "DIRECTIVES = [''import'', ''include'', ''pragma'']"

definition STRUCTURAL :: "string list" where
  "STRUCTURAL = [''start task'', ''end task'', ''template task'', ''context'', ''use module'',
     ''define'', ''run'', ''call'', ''await run'', ''detached run'', ''assign'',
     ''dispatch task'', ''synchronize'']"

definition CONTROL :: "string list" where
  "CONTROL = [''when'', ''on'', ''if'', ''elseif'', ''else'', ''repeat'', ''while'', ''for'',
     ''parallel'', ''at time'', ''break'', ''continue'', ''exit'', ''abort'', ''retry'',
     ''fallback'']"

definition EVENTS :: "string list" where
  "EVENTS = [''failure'', ''success'', ''timeout'', ''deviation'', ''interruption'']"

definition OPERATORS :: "string list" where
  "OPERATORS = [''and'', ''or'', ''not'', ''is'', ''exists'', ''near'', ''on'', ''in'',
     ''before'', ''after'', ''within'', ''confidently'', ''probably'', ''similar to'',
     ''anchor on'', ''relative to'']"

definition ACTIONS :: "(string \<times> string list) list" where
  "ACTIONS = [
    (''Perception'', [''detect'', ''scan'', ''observe'', ''track'', ''classify'', ''identify'',
       ''localize'', ''map'', ''estimate'']),
    (''Navigation'', [''move'', ''navigate'', ''go to'', ''approach'', ''follow'', ''back off'',
       ''retreat'', ''avoid'', ''dock'', ''undock'', ''align'', ''orient'', ''set speed'']),
    (''Manipulation'', [''grasp'', ''release'', ''pick'', ''place'', ''push'', ''pull'', ''press'',
       ''turn'', ''flip'', ''slide'', ''insert'', ''remove'', ''pour'', ''fill'', ''empty'',
       ''stir'', ''scoop'', ''shake'', ''tighten'', ''loosen'', ''open'', ''close'', ''lock'',
       ''unlock'']),
    (''Environment'', [''turn on'', ''turn off'', ''dim'', ''brighten'', ''toggle'',
       ''set temperature'', ''ventilate'', ''humidify'']),
    (''Household'', [''clean'', ''wipe'', ''wash'', ''rinse'', ''dry'', ''vacuum'', ''mop'',
       ''sweep'', ''sanitize'', ''disinfect'', ''sort'', ''stack'', ''fold'']),
    (''Kitchen'', [''cook'', ''bake'', ''boil'', ''fry'', ''heat'', ''cool'', ''brew'', ''serve'',
       ''deliver'']),
    (''Logistics'', [''fetch'', ''bring'', ''collect'', ''carry'', ''transfer'', ''handover'']),
    (''Communication'', [''say'', ''display'', ''notify'', ''ask'', ''expect'', ''wait for'',
       ''log'', ''play'', ''pause'', ''stop'', ''resume'', ''record'', ''capture'',
       ''photograph'', ''stream'']),
    (''Measurement'', [''measure'', ''weigh'', ''sample'', ''analyze'', ''test'', ''calibrate'',
       ''self-check'']),
    (''Maintenance'', [''charge'', ''start module'', ''stop module'', ''restart module'']),
    (''Multi-robot'', [''assign'', ''dispatch'', ''synchronize'', ''coordinate'', ''share map'']),
    (''Data & Memory'', [''remember'', ''recall'', ''store'', ''load'']),
    (''Safety'', [''emergency stop'', ''yield'', ''wait'']),
    (''Planning'', [''plan'', ''plan path'', ''plan grasp''])]"

definition ALL_MULTIWORD_STARTERS :: "string list" where
  "ALL_MULTIWORD_STARTERS = DIRECTIVES @ STRUCTURAL @ CONTROL @ OPERATORS @
     [''turn on'', ''turn off'', ''go to'', ''back off'', ''set speed'', ''emergency stop'',
      ''plan path'', ''plan grasp'', ''wait for'', ''at time'', ''dispatch task'']"

definition SINGLE_WORD_STARTERS :: "string list" where
  "SINGLE_WORD_STARTERS = [''let'', ''say'', ''move'', ''grasp'', ''release'', ''display'',
     ''notify'', ''ask'', ''expect'', ''log'', ''detect'', ''scan'', ''observe'', ''track'',
     ''classify'', ''identify'', ''localize'', ''map'', ''navigate'', ''approach'', ''follow'',
     ''retreat'', ''avoid'', ''dock'', ''undock'', ''align'', ''orient'', ''push'', ''pull'',
     ''press'', ''turn'', ''flip'', ''slide'', ''insert'', ''remove'', ''pour'', ''fill'',
     ''empty'', ''stir'', ''scoop'', ''shake'', ''tighten'', ''loosen'', ''open'', ''close'',
     ''lock'', ''unlock'', ''clean'', ''wipe'', ''wash'', ''rinse'', ''dry'', ''vacuum'', ''mop'',
     ''sweep'', ''sanitize'', ''disinfect'', ''sort'', ''stack'', ''fold'', ''cook'', ''bake'',
     ''boil'', ''fry'', ''heat'', ''cool'', ''brew'', ''serve'', ''deliver'', ''fetch'', ''bring'',
     ''collect'', ''carry'', ''transfer'', ''handover'', ''play'', ''pause'', ''stop'', ''resume'',
     ''record'', ''capture'', ''photograph'', ''stream'', ''measure'', ''weigh'', ''sample'',
     ''analyze'', ''test'', ''calibrate'', ''charge'', ''assign'', ''dispatch'', ''synchronize'',
     ''coordinate'', ''remember'', ''recall'', ''store'', ''load'', ''yield'', ''wait'', ''plan'',
     ''run'', ''call'', ''define'', ''context'', ''template'', ''start'', ''end'', ''use'',
     ''import'', ''include'', ''pragma'', ''abort'', ''retry'', ''fallback'', ''break'',
     ''continue'', ''exit'', ''parallel'', ''if'', ''elseif'', ''else'', ''when'', ''on'',
     ''while'', ''repeat'', ''for'']"

text \<open>
  \<open>exec\<close> of an anchored pattern whose only group is the whole match: the text consumed
  by the first match in backtracking order.
\<close>

definition exec_anchored :: "rx \<Rightarrow> string \<Rightarrow> string option" where
  "exec_anchored r s =
     (case rmatch r (None, s) of [] \<Rightarrow> None
      | p # _ \<Rightarrow> Some (take (length s - length (snd p)) s))"

definition js_alpha :: string where
  "js_alpha = ''abcdefghijklmnopqrstuvwxyzABCDEFGHIJKLMNOPQRSTUVWXYZ''"

text \<open>\<open>/^([A-Za-z][A-Za-z\-]*)\b/\<close>\<close>

definition leadingTokenRe :: rx where
  "leadingTokenRe = seqs [Cls (OneOf js_alpha), Star (OneOf (js_alpha @ ''-'')), Wb]"

definition firstVerb_multi :: "string list" where
  "firstVerb_multi = [''dispatch task'', ''await run'', ''detached run'', ''start task'',
     ''end task'', ''turn on'', ''turn off'', ''go to'', ''back off'', ''set speed'', ''at time'',
     ''plan path'', ''plan grasp'']"

definition firstVerb :: "string \<Rightarrow> string option" where
  "firstVerb line =
     (let t = trim line in
      if length t = 0 \<or> startsWith t ''//'' then None
      else case List.find (\<lambda>m. startsWith t (m @ '' '') \<or> t = m \<or> startsWith t (m @ '':'')
                                \<or> startsWith t (m @ [CHR 0x22])) firstVerb_multi of
             Some m \<Rightarrow> Some m
           | None \<Rightarrow> exec_anchored leadingTokenRe t)"

text \<open>6.1 Missing colon on block headers\<close>

definition missingColonAt :: "RoopSettings \<Rightarrow> nat \<times> string \<Rightarrow> Diagnostic list" where
  "missingColonAt st = (\<lambda>(i, text).
     if endsWithColonCandidate text \<and> \<not> endsWith (trim text) '':''
     then [\<lparr> severity = toSeverity (missingColonSeverity st), message = MissingColon,
             drange = makeRange (int i) 0 (int (length text)) \<rparr>]
     else [])"

definition missingColonPass :: "RoopSettings \<Rightarrow> document \<Rightarrow> Diagnostic list" where
  "missingColonPass st doc =
     (if missingColonSeverity st \<noteq> Off
      then concat (map (missingColonAt st) (enumerate 0 doc)) else [])"

text \<open>6.2 Unbalanced 'start task' / 'end task'\<close>

definition unbalancedTaskPass :: "RoopSettings \<Rightarrow> document \<Rightarrow> Diagnostic list" where
  "unbalancedTaskPass st doc =
     (if unbalancedTaskSeverity st \<noteq> Off
      then (let starts = length (filter isStartTask doc);
                ends = length (filter isEndTask doc)
            in if starts \<noteq> ends
               then [\<lparr> severity = toSeverity (unbalancedTaskSeverity st),
                       message = UnbalancedTasks starts ends,
                       drange = makeRange 0 0 (max 1 (int (length (lineAt doc 0)))) \<rparr>]
               else [])
      else [])"

text \<open>6.3 Unknown or unsupported top-level verb (soft hint)\<close>

definition indexOf_int :: "string \<Rightarrow> string \<Rightarrow> int" where
  "indexOf_int s t = (case indexOf s t of None \<Rightarrow> - 1 | Some k \<Rightarrow> int k)"

definition unknownVerbAt :: "RoopSettings \<Rightarrow> nat \<times> string \<Rightarrow> Diagnostic list" where
  "unknownVerbAt st = (\<lambda>(i, raw).
     let text = trim raw in
     if text = [] \<or> startsWith text ''//'' \<or> startsWith text [CHR 0x22]
        \<or> startsWith text [CHR 0x27] then []
     else case firstVerb text of
        None \<Rightarrow> []
      | Some v \<Rightarrow>
         (let ok = (v \<in> set SINGLE_WORD_STARTERS \<or> v \<in> set ALL_MULTIWORD_STARTERS);
              ok' = (if \<not> ok \<and> length (extraKeywords st) \<noteq> 0
                     then v \<in> set (extraKeywords st) else ok)
          in if \<not> ok'
             then [\<lparr> severity = Some SevHint, message = UnrecognizedVerb v,
                     drange = makeRange (int i) (indexOf_int raw v)
                                (indexOf_int raw v + int (length v)) \<rparr>]
             else []))"

definition unknownVerbPass :: "RoopSettings \<Rightarrow> document \<Rightarrow> Diagnostic list" where
  "unknownVerbPass st doc = concat (map (unknownVerbAt st) (enumerate 0 doc))"

text \<open>\<open>validateTextDocument\<close>: the list handed to \<open>connection.sendDiagnostics\<close>.\<close>

definition validateTextDocument :: "RoopSettings \<Rightarrow> document \<Rightarrow> Diagnostic list" where
  "validateTextDocument st doc =
     missingColonPass st doc @ unbalancedTaskPass st doc @ unknownVerbPass st doc"

definition isUnbalancedTask :: "Diagnostic \<Rightarrow> bool" where
  "isUnbalancedTask d = (case message d of UnbalancedTasks s e \<Rightarrow> True | _ \<Rightarrow> False)"

definition isMissingColon :: "Diagnostic \<Rightarrow> bool" where
  "isMissingColon d = (case message d of MissingColon \<Rightarrow> True | _ \<Rightarrow> False)"


section \<open>server.ts: document symbols\<close>

text \<open>
  \<open>/^\s*start\s+task\s+"([^"]+)"/\<close> and \<open>/^\s*template\s+task\s+"([^"]+)":/\<close>.
  \<open>exec_quoted pre post\<close> matches \<open>pre\<close> (which ends with the opening quote), then the
  group \<open>[^"]+\<close>, then \<open>post\<close> (which begins with the closing quote), and returns the
  group.  The group is greedy and \<open>post\<close> begins with a quote, so the only text it can
  hold is the longest run of characters other than the quote.
\<close>

definition exec_quoted :: "rx \<Rightarrow> rx \<Rightarrow> string \<Rightarrow> string option" where
  "exec_quoted pre post s =
     (case List.map_filter
        (\<lambda>p. let g = takeWhile (\<lambda>c. c \<noteq> CHR 0x22) (snd p);
                  rest = dropWhile (\<lambda>c. c \<noteq> CHR 0x22) (snd p)
              in if g \<noteq> [] \<and> rmatch post (Some (last g), rest) \<noteq> [] then Some g else None)
        (rmatch pre (None, s)) of
        [] \<Rightarrow> None
      | g # _ \<Rightarrow> Some g)"

definition taskTitlePre :: rx where
  "taskTitlePre = seqs [Star sp, lit ''start'', plus sp, lit ''task'', plus sp, lit [CHR 0x22]]"

definition templateTitlePre :: rx where
  "templateTitlePre =
     seqs [Star sp, lit ''template'', plus sp, lit ''task'', plus sp, lit [CHR 0x22]]"

definition taskMatch :: "string \<Rightarrow> string option" where
  "taskMatch text = exec_quoted taskTitlePre (lit [CHR 0x22]) text"

definition templateMatch :: "string \<Rightarrow> string option" where
  "templateMatch text = exec_quoted templateTitlePre (lit [CHR 0x22, CHR '':'']) text"

datatype SymbolKind = Module | Class

record Frame =
  fname :: string
  fstartLine :: nat
  fkind :: SymbolKind

record DocumentSymbol =
  name :: string
  kind :: SymbolKind
  srange :: Range
  selectionRange :: Range

definition mkSymbol :: "document \<Rightarrow> Frame \<Rightarrow> int \<Rightarrow> DocumentSymbol" where
  "mkSymbol doc fr endL =
     \<lparr> name = fname fr, kind = fkind fr,
       srange = \<lparr> startLine = int (fstartLine fr), startCharacter = 0,
                  endLine = endL, endCharacter = int (length (lineAt doc (nat endL))) \<rparr>,
       selectionRange = \<lparr> startLine = int (fstartLine fr), startCharacter = 0,
                  endLine = int (fstartLine fr),
                  endCharacter = int (length (lineAt doc (fstartLine fr))) \<rparr> \<rparr>"

text \<open>
  A loop \<open>for (let i = 0; i < doc.lineCount; i++)\<close> that reads \<open>lineAt(doc, i)\<close> runs
  over the lines paired with their numbers, \<open>enumerate 0 doc\<close>.  The stack is a list
  whose head is the top (\<open>push\<close> is \<open>#\<close>, \<open>pop\<close> takes the head).
\<close>

fun symbolLoop ::
  "document \<Rightarrow> (nat \<times> string) list \<Rightarrow> Frame list \<Rightarrow> DocumentSymbol list
     \<Rightarrow> Frame list \<times> DocumentSymbol list" where
  "symbolLoop doc [] stack symbols = (stack, symbols)"
| "symbolLoop doc ((i, text) # rest) stack symbols =
     (case taskMatch text of
        Some n \<Rightarrow> symbolLoop doc rest
                    (\<lparr> fname = n, fstartLine = i, fkind = Module \<rparr> # stack) symbols
      | None \<Rightarrow>
         (case templateMatch text of
            Some n \<Rightarrow> symbolLoop doc rest
                        (\<lparr> fname = ''(template) '' @ n, fstartLine = i, fkind = Class \<rparr> # stack)
                        symbols
          | None \<Rightarrow>
             (if isEndTask text
              then (case stack of
                      [] \<Rightarrow> symbolLoop doc rest stack symbols
                    | fr # stack' \<Rightarrow>
                        symbolLoop doc rest stack' (symbols @ [mkSymbol doc fr (int i)]))
              else symbolLoop doc rest stack symbols)))"

text \<open>Close any unterminated blocks at EOF for outline purposes.\<close>

definition onDocumentSymbol :: "document option \<Rightarrow> DocumentSymbol list" where
  "onDocumentSymbol d =
     (case d of None \<Rightarrow> []
      | Some doc \<Rightarrow>
         (let (stack, symbols) = symbolLoop doc (enumerate 0 doc) [] [];
              eofLine = int (length doc) - 1
          in symbols @ map (\<lambda>fr. mkSymbol doc fr eofLine) stack))"

section \<open>server.ts: folding ranges\<close>

datatype FoldingRangeKind = Region

record FoldingRange =
  foldStart :: int
  foldEnd :: int
  foldKind :: "FoldingRangeKind option"

definition pushFold ::
  "FoldingRange list \<Rightarrow> int \<Rightarrow> int \<Rightarrow> FoldingRangeKind option \<Rightarrow> FoldingRange list" where
  "pushFold folds start end' k =
     (if end' > start then folds @ [\<lparr> foldStart = start, foldEnd = end', foldKind = k \<rparr>]
      else folds)"

text \<open>Task folds: one variable \<open>taskStart\<close>, the line of the last opener seen.\<close>

fun taskFoldLoop ::
  "(nat \<times> string) list \<Rightarrow> nat option \<Rightarrow> FoldingRange list \<Rightarrow> FoldingRange list" where
  "taskFoldLoop [] taskStart folds = folds"
| "taskFoldLoop ((i, t) # rest) taskStart folds =
     (if isStartTask t then taskFoldLoop rest (Some i) folds
      else if isEndTask t
      then (case taskStart of
              Some s \<Rightarrow> taskFoldLoop rest None (pushFold folds (int s) (int i) (Some Region))
            | None \<Rightarrow> taskFoldLoop rest taskStart folds)
      else taskFoldLoop rest taskStart folds)"

text \<open>Block folds: a stack of header lines; a blank line closes the innermost one.\<close>

fun blockFoldLoop ::
  "(nat \<times> string) list \<Rightarrow> nat list \<Rightarrow> FoldingRange list \<Rightarrow> nat list \<times> FoldingRange list" where
  "blockFoldLoop [] stack folds = (stack, folds)"
| "blockFoldLoop ((i, l) # rest) stack folds =
     (let t = trim l in
      if isBlockHeader t then blockFoldLoop rest (i # stack) folds
      else if isBlank t
      then (case stack of
              [] \<Rightarrow> blockFoldLoop rest stack folds
            | s # stack' \<Rightarrow> blockFoldLoop rest stack' (pushFold folds (int s) (int i - 1) None))
      else blockFoldLoop rest stack folds)"

fun closeFolds :: "nat list \<Rightarrow> int \<Rightarrow> FoldingRange list \<Rightarrow> FoldingRange list" where
  "closeFolds [] eof folds = folds"
| "closeFolds (s # stack) eof folds = closeFolds stack eof (pushFold folds (int s) eof None)"

definition onFoldingRanges :: "document option \<Rightarrow> FoldingRange list" where
  "onFoldingRanges d =
     (case d of None \<Rightarrow> []
      | Some doc \<Rightarrow>
         (let folds1 = taskFoldLoop (enumerate 0 doc) None [];
              (stack, folds2) = blockFoldLoop (enumerate 0 doc) [] folds1;
              eof = int (length doc) - 1
          in closeFolds stack eof folds2))"

section \<open>server.ts: formatting\<close>

text \<open>\<open>/^end\s+task\b/\<close>, \<open>/^(elseif\b.*:|else\s*:)$/\<close> and \<open>/^start\s+task\b/\<close>, on the trimmed line\<close>

definition fmtEndTaskRe :: rx where
  "fmtEndTaskRe = seqs [lit ''end'', plus sp, lit ''task'', Wb]"

definition fmtTransitionRe :: rx where
  "fmtTransitionRe = seqs [alts [elseifHeader, elseHeader], Eoi]"

definition fmtStartTaskRe :: rx where
  "fmtStartTaskRe = seqs [lit ''start'', plus sp, lit ''task'', Wb]"

text \<open>Pre-decrease for certain tokens.\<close>

definition preLevel :: "int \<Rightarrow> string \<Rightarrow> int" where
  "preLevel level trimmed =
     (if test_anchored fmtEndTaskRe trimmed then max 0 (level - 1)
      else if test_anchored fmtTransitionRe trimmed then max 0 (level - 1)
      else level)"

text \<open>Post-increase for block starters.\<close>

definition postLevel :: "int \<Rightarrow> string \<Rightarrow> int" where
  "postLevel level trimmed =
     (if test_anchored fmtStartTaskRe trimmed then level + 1
      else if isBlockHeader trimmed then level + 1
      else level)"

definition formatLine :: "int \<Rightarrow> int \<Rightarrow> string \<Rightarrow> string" where
  "formatLine indent level trimmed =
     (let pad = replicate (nat (level * indent)) CHR '' '' in
      if endsWithColonCandidate trimmed \<and> \<not> endsWith trimmed '':''
      then pad @ trimmed @ '':'' else pad @ trimmed)"

text \<open>
  The loop of the formatter, which returns for every line the level it is written at and
  its new text.
\<close>

fun formatLoop :: "int \<Rightarrow> int \<Rightarrow> string list \<Rightarrow> (int \<times> string) list" where
  "formatLoop indent level [] = []"
| "formatLoop indent level (t # rest) =
     (let trimmed = trim t;
          level1 = preLevel level trimmed
      in (level1, formatLine indent level1 trimmed)
           # formatLoop indent (postLevel level1 trimmed) rest)"

definition formatLevels :: "RoopSettings \<Rightarrow> document \<Rightarrow> int list" where
  "formatLevels st doc = map fst (formatLoop (indentSize st) 0 doc)"

definition formatLines :: "RoopSettings \<Rightarrow> document \<Rightarrow> string list" where
  "formatLines st doc = map snd (formatLoop (indentSize st) 0 doc)"

fun joinLines :: "string list \<Rightarrow> string" where
  "joinLines [] = []"
| "joinLines [l] = l"
| "joinLines (l # ls) = l @ [CHR 0x0A] @ joinLines ls"

text \<open>
  \<open>onDocumentFormatting\<close> answers one edit that replaces the whole text by the new lines
  joined with LF, or no edit when there is no document or the formatter is disabled.
\<close>

definition onDocumentFormatting :: "RoopSettings \<Rightarrow> document option \<Rightarrow> string list" where
  "onDocumentFormatting st d =
     (case d of None \<Rightarrow> []
      | Some doc \<Rightarrow> if \<not> formatEnabled st then [] else [joinLines (formatLines st doc)])"


section \<open>server.ts: completion\<close>

definition DOCS :: "(string \<times> string) list" where
  "DOCS = [
    (''start task'', ''Begins a named task. Balanced with `end task`.''),
    (''end task'', ''Ends the current task.''),
    (''template task'', ''Declares a named task template block.''),
    (''use module'', ''Declares a capability module by name so its actions can be invoked.''),
    (''run'', ''Invokes a named task or inline block.''),
    (''await run'', ''Runs a task and waits for it to complete before continuing.''),
    (''detached run'', ''Runs a task asynchronously and continues immediately.''),
    (''assign'', ''Assigns a role to an agent (multi-robot orchestration).''),
    (''dispatch task'', ''Sends a named task to a remote agent.''),
    (''synchronize'', ''Declares a rendezvous or barrier.''),
    (''when'', ''Event-driven trigger block based on perception or context.''),
    (''on'', ''Outcome/event branch such as `on failure:`.''),
    (''if'', ''Conditional block.''),
    (''elseif'', ''Conditional else-if block.''),
    (''else'', ''Else branch.''),
    (''repeat'', ''Fixed-count loop block.''),
    (''while'', ''Conditioned loop block.''),
    (''for'', ''Iteration over a collection.''),
    (''parallel'', ''Runs child blocks concurrently.''),
    (''at time'', ''Schedules a block to run at a specific time.''),
    (''abort'', ''Terminates the current task.''),
    (''retry'', ''Repeats the preceding action/block after failure.''),
    (''fallback'', ''Declares an alternate strategy when the main one fails.''),
    (''move'', ''Moves a robot or actuator to a target (object, location, or offset).''),
    (''grasp'', ''Closes the end-effector around a target to hold it.''),
    (''release'', ''Opens the end-effector to let go of the target.''),
    (''turn on'', ''Switches a device or module on.''),
    (''turn off'', ''Switches a device or module off.''),
    (''say'', ''Speaks the given text.''),
    (''display'', ''Shows text on a visual panel or screen.''),
    (''notify'', ''Sends a user/system notification.''),
    (''ask'', ''Prompts the user and captures an answer.''),
    (''expect'', ''Waits for a value or condition within a deadline.''),
    (''wait for'', ''Pauses until an event or state is observed.''),
    (''detect'', ''Invokes perception to find an entity matching the description.''),
    (''track'', ''Maintains a live reference to a moving target.''),
    (''plan'', ''Requests a plan (e.g., path or sequence) for a goal.''),
    (''plan path'', ''Plans a path from the current state to a target.''),
    (''plan grasp'', ''Plans a feasible grasp for a target.'')]"

datatype CompletionItemKind = Snippet | Keyword | Function | Operator

text \<open>
  \<open>DOCS\<close> is a plain object, so \<open>DOCS[label]\<close> finds the entries of the table above and
  also the properties every object inherits from \<open>Object.prototype\<close>, whose values are
  functions or objects.  The value found is attached to the item if it is truthy: a
  non-empty text of the table, or an inherited property.
\<close>

datatype DocValue = DocText string | InheritedProperty string

definition objectPrototypeProperties :: "string list" where
  "objectPrototypeProperties = [''constructor'', ''__defineGetter__'', ''__defineSetter__'',
     ''hasOwnProperty'', ''__lookupGetter__'', ''__lookupSetter__'', ''isPrototypeOf'',
     ''propertyIsEnumerable'', ''toString'', ''valueOf'', ''__proto__'', ''toLocaleString'']"

definition lookupDOCS :: "string \<Rightarrow> DocValue option" where
  "lookupDOCS lbl =
     (case map_of DOCS lbl of
        Some d \<Rightarrow> if d \<noteq> [] then Some (DocText d) else None
      | None \<Rightarrow> if lbl \<in> set objectPrototypeProperties then Some (InheritedProperty lbl)
                else None)"

record CompletionItem =
  label :: string
  ckind :: CompletionItemKind
  sortText :: string
  detail :: "string option"
  insertText :: "string option"
  documentation :: "DocValue option"

text \<open>The local function \<open>push\<close> of the handler builds one item.\<close>

definition push ::
  "string \<Rightarrow> CompletionItemKind \<Rightarrow> string option \<Rightarrow> string option \<Rightarrow> string \<Rightarrow> CompletionItem"
  where
  "push lbl k det ins srt =
     \<lparr> label = lbl, ckind = k, sortText = srt, detail = det, insertText = ins,
       documentation = lookupDOCS lbl \<rparr>"

record Position =
  line :: nat
  character :: nat

text \<open>
  The context patterns, tested on the line up to the cursor: \<open>/^\s*$/\<close>, \<open>/\bon\s+$/\<close>,
  \<open>/\buse\s+$/\<close>, \<open>/\brepeat\s+\d*\s*$/\<close>, \<open>/\bif\s+$/\<close> and \<open>/\bat\s+time\s*$/\<close>.
\<close>

definition ctxBlank :: "string \<Rightarrow> bool" where
  "ctxBlank s = test_anchored blankRe s"

definition ctxOn :: "string \<Rightarrow> bool" where
  "ctxOn s = test_anywhere (seqs [Wb, lit ''on'', plus sp, Eoi]) s"

definition ctxUse :: "string \<Rightarrow> bool" where
  "ctxUse s = test_anywhere (seqs [Wb, lit ''use'', plus sp, Eoi]) s"

definition ctxRepeat :: "string \<Rightarrow> bool" where
  "ctxRepeat s = test_anywhere (seqs [Wb, lit ''repeat'', plus sp, Star dg, Star sp, Eoi]) s"

definition ctxIf :: "string \<Rightarrow> bool" where
  "ctxIf s = test_anywhere (seqs [Wb, lit ''if'', plus sp, Eoi]) s"

definition ctxAtTime :: "string \<Rightarrow> bool" where
  "ctxAtTime s = test_anywhere (seqs [Wb, lit ''at'', plus sp, lit ''time'', Star sp, Eoi]) s"

text \<open>7.1 Context-aware snippets\<close>

definition blankItems :: "CompletionItem list" where
  "blankItems = [
     push ''start task'' Snippet (Some ''Begin a task'')
       (Some (''start task '' @ [CHR 0x22] @ ''${1:TaskName}'' @ [CHR 0x22] @ [CHR 0x0A] @ [CHR 0x09] @ ''$0'' @ [CHR 0x0A] @ ''end task'')) ''a'',
     push ''when'' Keyword (Some ''Event-triggered block'')
       (Some (''when ${1:predicate}:'' @ [CHR 0x0A] @ [CHR 0x09] @ ''$0'')) ''b'',
     push ''if'' Keyword (Some ''Conditional block'')
       (Some (''if ${1:condition}:'' @ [CHR 0x0A] @ [CHR 0x09] @ ''$0'')) ''c'',
     push ''parallel'' Keyword (Some ''Parallel block'')
       (Some (''parallel:'' @ [CHR 0x0A] @ [CHR 0x09] @ ''$0'')) ''d'',
     push ''repeat'' Keyword (Some ''Repeat block'')
       (Some (''repeat ${1:3} times:'' @ [CHR 0x0A] @ [CHR 0x09] @ ''$0'')) ''e'']"

definition onItems :: "CompletionItem list" where
  "onItems = map (\<lambda>e. push (''on '' @ e @ '':'') Keyword (Some ''Event branch'')
                         (Some (''on '' @ e @ '':'' @ [CHR 0x0A, CHR 0x09] @ ''$0'')) ''a'') EVENTS"

definition useItems :: "CompletionItem list" where
  "useItems = [push ''use module'' Keyword (Some ''Declare a capability module'')
                 (Some (''use module '' @ [CHR 0x22] @ ''${1:ModuleName}'' @ [CHR 0x22])) ''a'']"

definition repeatItems :: "CompletionItem list" where
  "repeatItems = [push ''repeat N times:'' Snippet (Some ''Fixed-count loop'')
                    (Some (''repeat ${1:3} times:'' @ [CHR 0x0A] @ [CHR 0x09] @ ''$0'')) ''a'']"

definition ifItems :: "CompletionItem list" where
  "ifItems = [push (''if object '' @ [CHR 0x22] @ ''type'' @ [CHR 0x22] @ '' with color '' @ [CHR 0x22] @ ''c'' @ [CHR 0x22] @ '' is on '' @ [CHR 0x22] @ ''Area'' @ [CHR 0x22] @ '':'') Snippet
                (Some ''Perceptual condition'')
                (Some (''if object '' @ [CHR 0x22] @ ''${1:mug}'' @ [CHR 0x22] @ '' with color '' @ [CHR 0x22] @ ''${2:red}'' @ [CHR 0x22] @ '' is on '' @ [CHR 0x22] @ ''${3:Table}'' @ [CHR 0x22] @ '':'' @ [CHR 0x0A] @ [CHR 0x09] @ ''$0'')) ''a'']"

definition atTimeItems :: "CompletionItem list" where
  "atTimeItems = [push (''at time '' @ [CHR 0x22] @ ''HH:MM'' @ [CHR 0x22] @ '':'') Snippet (Some ''Time trigger'')
                    (Some (''at time '' @ [CHR 0x22] @ ''${1:08:00}'' @ [CHR 0x22] @ '':'' @ [CHR 0x0A] @ [CHR 0x09] @ ''$0'')) ''a'']"

text \<open>7.2 Action catalog completions, with friendly insert texts for common verbs\<close>

definition actionInsert :: "string \<Rightarrow> string" where
  "actionInsert v =
     (
      if v = ''say'' then (''say '' @ [CHR 0x22] @ ''${1:text}'' @ [CHR 0x22])
      else if v = ''display'' then (''display '' @ [CHR 0x22] @ ''${1:text}'' @ [CHR 0x22] @ '' on '' @ [CHR 0x22] @ ''${2:Panel}'' @ [CHR 0x22])
      else if v = ''notify'' then (''notify user '' @ [CHR 0x22] @ ''${1:message}'' @ [CHR 0x22])
      else if v = ''ask'' then (''ask '' @ [CHR 0x22] @ ''${1:question}'' @ [CHR 0x22] @ '' as ${2:variable}'')
      else if v = ''expect'' then (''expect ${1:object '' @ [CHR 0x22] @ ''name'' @ [CHR 0x22] @ ''} within ${2:10} seconds'')
      else if v = ''wait for'' then ''wait for ${1:event}''
      else if v = ''move'' then (''move ${1:Arm1} to ${2:'' @ [CHR 0x22] @ ''Target'' @ [CHR 0x22] @ ''}'')
      else if v = ''grasp'' then ''grasp with ${1:Gripper1}''
      else if v = ''release'' then ''release with ${1:Gripper1}''
      else if v = ''detect'' then (''let ${1:var} = object '' @ [CHR 0x22] @ ''${2:type}'' @ [CHR 0x22] @ '' with ${3:attribute} '' @ [CHR 0x22] @ ''${4:value}'' @ [CHR 0x22])
      else if v = ''track'' then ''track position of ${1:target} as ${2:var}''
      else if v = ''plan path'' then ''plan path from ${1:Arm1} to ${2:Target}''
      else if v = ''plan grasp'' then ''plan grasp for ${1:Target}''
      else v)"

definition actionItems :: "CompletionItem list" where
  "actionItems =
     concat (map (\<lambda>(cat, verbs).
        map (\<lambda>v. push v Function (Some (cat @ '' action'')) (Some (actionInsert v)) ''z'') verbs)
       ACTIONS)"

text \<open>7.3 Directives, structural keywords, operators and the user's extra keywords\<close>

definition directiveItems :: "CompletionItem list" where
  "directiveItems = map (\<lambda>d. push d Keyword (Some ''Directive'') None ''z'') DIRECTIVES"

definition structuralItems :: "CompletionItem list" where
  "structuralItems = map (\<lambda>s. push s Keyword (Some ''Structural'') None ''z'') STRUCTURAL"

definition operatorItems :: "CompletionItem list" where
  "operatorItems = map (\<lambda>op. push op Operator (Some ''Operator'') None ''z'') OPERATORS"

definition extraItems :: "RoopSettings \<Rightarrow> CompletionItem list" where
  "extraItems st = map (\<lambda>x. push x Keyword (Some ''Custom keyword'') None ''z'') (extraKeywords st)"

definition onCompletion :: "RoopSettings \<Rightarrow> document option \<Rightarrow> Position \<Rightarrow> CompletionItem list"
  where
  "onCompletion st d pos =
     (case d of None \<Rightarrow> []
      | Some doc \<Rightarrow>
         (let lineText = lineAt doc (line pos);
              tillCursor = take (character pos) lineText
          in (if ctxBlank tillCursor then blankItems else [])
             @ (if ctxOn tillCursor then onItems else [])
             @ (if ctxUse tillCursor then useItems else [])
             @ (if ctxRepeat tillCursor then repeatItems else [])
             @ (if ctxIf tillCursor then ifItems else [])
             @ (if ctxAtTime tillCursor then atTimeItems else [])
             @ actionItems @ directiveItems @ structuralItems @ operatorItems
             @ extraItems st))"


section \<open>extension.ts: patterns\<close>

text \<open>
  \<open>INCREASE_INDENT_RE\<close>, \<open>DECREASE_INDENT_RE\<close> and \<open>HEADER_MAY_REQUIRE_COLON_RE\<close>, all with
  the \<open>i\<close> flag:
  \<^item> \<open>/^\s*(?:(?:when|on|at|if|elseif|else|repeat|while|for|parallel|context|with\s+timeout|every|sync\s+when)\b.*:|(?:detached\s+run|await\s+run|run)\b.*:|template\s+task\b.*:|start\s+task\b.*(?::\s*)?$|fallback:)\s*$/i\<close>
  \<^item> \<open>/^\s*(?:end\s+task\b|elseif\b.*:|else:)\s*$/i\<close>
  \<^item> \<open>/^\s*(?:when\b.*|on\b.*|at\b.*|if\b.*|elseif\b.*|else|repeat\b.*|while\b.*|for\b.*|parallel|context\b.*|with\s+timeout\b.*|every\b.*|sync\s+when\b.*|template\s+task\b.*|fallback)\s*:?\s*$/i\<close>
\<close>

definition INCREASE_INDENT_RE :: rx where
  "INCREASE_INDENT_RE = seqs [Star sp, alts [
      seqs [alts [liti ''when'', liti ''on'', liti ''at'', liti ''if'', liti ''elseif'',
                  liti ''else'', liti ''repeat'', liti ''while'', liti ''for'', liti ''parallel'',
                  liti ''context'', seqs [liti ''with'', plus sp, liti ''timeout''],
                  liti ''every'', seqs [liti ''sync'', plus sp, liti ''when'']],
            Wb, Star dot, lit '':''],
      seqs [alts [seqs [liti ''detached'', plus sp, liti ''run''],
                  seqs [liti ''await'', plus sp, liti ''run''], liti ''run''],
            Wb, Star dot, lit '':''],
      seqs [liti ''template'', plus sp, liti ''task'', Wb, Star dot, lit '':''],
      seqs [liti ''start'', plus sp, liti ''task'', Wb, Star dot,
            Opt (seqs [lit '':'', Star sp]), Eoi],
      liti ''fallback:''], Star sp, Eoi]"

definition DECREASE_INDENT_RE :: rx where
  "DECREASE_INDENT_RE = seqs [Star sp, alts [
      seqs [liti ''end'', plus sp, liti ''task'', Wb],
      seqs [liti ''elseif'', Wb, Star dot, lit '':''],
      liti ''else:''], Star sp, Eoi]"

definition HEADER_MAY_REQUIRE_COLON_RE :: rx where
  "HEADER_MAY_REQUIRE_COLON_RE = seqs [Star sp, alts [
      seqs [liti ''when'', Wb, Star dot],
      seqs [liti ''on'', Wb, Star dot],
      seqs [liti ''at'', Wb, Star dot],
      seqs [liti ''if'', Wb, Star dot],
      seqs [liti ''elseif'', Wb, Star dot],
      liti ''else'',
      seqs [liti ''repeat'', Wb, Star dot],
      seqs [liti ''while'', Wb, Star dot],
      seqs [liti ''for'', Wb, Star dot],
      liti ''parallel'',
      seqs [liti ''context'', Wb, Star dot],
      seqs [liti ''with'', plus sp, liti ''timeout'', Wb, Star dot],
      seqs [liti ''every'', Wb, Star dot],
      seqs [liti ''sync'', plus sp, liti ''when'', Wb, Star dot],
      seqs [liti ''template'', plus sp, liti ''task'', Wb, Star dot],
      liti ''fallback''], Star sp, Opt (lit '':''), Star sp, Eoi]"

text \<open>\<open>/:\s*$/\<close>\<close>

definition hasColonRe :: rx where
  "hasColonRe = seqs [lit '':'', Star sp, Eoi]"

text \<open>
  \<open>s.replace(r, rep)\<close> for a pattern without the \<open>g\<close> flag: the first match, found by
  trying the positions from left to right, is replaced.
\<close>

fun replace_from :: "rx \<Rightarrow> string \<Rightarrow> char option \<Rightarrow> string \<Rightarrow> string" where
  "replace_from r rep b [] =
     (case rmatch r (b, []) of [] \<Rightarrow> [] | q # _ \<Rightarrow> rep @ snd q)"
| "replace_from r rep b (c # cs) =
     (case rmatch r (b, c # cs) of
        [] \<Rightarrow> c # replace_from r rep (Some c) cs
      | q # _ \<Rightarrow> rep @ snd q)"

definition replace_first :: "rx \<Rightarrow> string \<Rightarrow> string \<Rightarrow> string" where
  "replace_first r rep s = replace_from r rep None s"

section \<open>extension.ts: the fallback formatter\<close>

text \<open>
  One step of the loop of \<open>provideDocumentFormattingEdits\<close>: the new indentation
  level after the line, and the rebuilt line.
\<close>

definition normalizeHeader :: "string \<Rightarrow> string" where
  "normalizeHeader text =
     (let mayBeHeader = test_anchored HEADER_MAY_REQUIRE_COLON_RE (trim text);
          hasColon = test_anywhere hasColonRe text
      in if mayBeHeader \<and> \<not> hasColon then replace_first blankRe '':'' text else text)"

fun extFormatLoop :: "int \<Rightarrow> int \<Rightarrow> string list \<Rightarrow> (int \<times> string) list" where
  "extFormatLoop indent indentLevel [] = []"
| "extFormatLoop indent indentLevel (text # rest) =
     (let normalized = normalizeHeader text;
          trimmed = trimStart normalized;
          isDecreasing = test_anchored DECREASE_INDENT_RE trimmed;
          level1 = (if isDecreasing \<and> indentLevel > 0 then indentLevel - 1 else indentLevel);
          rebuilt = replicate (nat (level1 * indent)) CHR '' '' @ trimmed;
          level2 = (if test_anchored INCREASE_INDENT_RE trimmed then level1 + 1 else level1)
      in (level1, rebuilt) # extFormatLoop indent level2 rest)"

text \<open>
  The edits: one replacement of the whole line for every line whose rebuilt text differs;
  \<open>extFormat\<close> is the document after the edits are applied.
\<close>

definition provideDocumentFormattingEdits :: "int \<Rightarrow> document \<Rightarrow> (nat \<times> string) list" where
  "provideDocumentFormattingEdits cfgIndent doc =
     (let indentSize = max 2 (min 8 cfgIndent) in
      map (\<lambda>(i, text, rebuilt). (i, rebuilt))
        (filter (\<lambda>(i, text, rebuilt). rebuilt \<noteq> text)
           (zip [0..<length doc] (zip doc (map snd (extFormatLoop indentSize 0 doc))))))"

definition extFormat :: "int \<Rightarrow> document \<Rightarrow> document" where
  "extFormat cfgIndent doc = map snd (extFormatLoop (max 2 (min 8 cfgIndent)) 0 doc)"

section \<open>extension.ts: validation\<close>

text \<open>
  The severities of \<open>vscode.DiagnosticSeverity\<close> are the numbers \<open>Error = 0\<close>,
  \<open>Warning = 1\<close>, \<open>Information = 2\<close> and \<open>Hint = 3\<close>; \<open>toSeverity\<close> answers \<open>0\<close> for
  \<open>off\<close>, and \<open>validateDocument\<close> runs a check only if its severity is truthy (not \<open>0\<close>).
\<close>

fun ext_toSeverity :: "LintLevel \<Rightarrow> nat" where
  "ext_toSeverity LintHint = 3"
| "ext_toSeverity LintWarning = 1"
| "ext_toSeverity LintError = 0"
| "ext_toSeverity Off = 0"

text \<open>
  The three messages of the client-side validator:
  \<open>Block header is missing a trailing ':'\<close>,
  \<open>"end task" without a matching "start task".\<close> and
  \<open>"start task" has no matching "end task".\<close>
\<close>

datatype ExtMessage = MissingTrailingColon | EndWithoutStart | StartWithoutEnd

record ExtDiagnostic =
  erange :: Range
  emessage :: ExtMessage
  eseverity :: nat

text \<open>\<open>doc.lineAt(i).range\<close>: the whole line.\<close>

definition lineRange :: "nat \<Rightarrow> string \<Rightarrow> Range" where
  "lineRange i text = makeRange (int i) 0 (int (length text))"

definition stripLineComment :: "string \<Rightarrow> string" where
  "stripLineComment text =
     trimEnd (case indexOf text ''//'' of Some idx \<Rightarrow> take idx text | None \<Rightarrow> text)"

text \<open>\<open>TextLine.isEmptyOrWhitespace\<close>: the line holds white space only.\<close>

definition isEmptyOrWhitespace :: "string \<Rightarrow> bool" where
  "isEmptyOrWhitespace text = list_all is_space text"

fun missingColonLoop ::
  "nat \<Rightarrow> int \<Rightarrow> (nat \<times> string) list \<Rightarrow> ExtDiagnostic list \<Rightarrow> ExtDiagnostic list" where
  "missingColonLoop sev budget [] out = out"
| "missingColonLoop sev budget ((i, l) # rest) out =
     (if \<not> int (length out) < budget then out
      else if isEmptyOrWhitespace l then missingColonLoop sev budget rest out
      else let text = trim (stripLineComment l) in
        if text = [] then missingColonLoop sev budget rest out
        else if test_anchored HEADER_MAY_REQUIRE_COLON_RE text \<and> \<not> test_anywhere hasColonRe text
        then missingColonLoop sev budget rest
               (out @ [\<lparr> erange = lineRange i l, emessage = MissingTrailingColon,
                         eseverity = sev \<rparr>])
        else missingColonLoop sev budget rest out)"

definition collectMissingColonDiagnostics ::
  "document \<Rightarrow> nat \<Rightarrow> int \<Rightarrow> ExtDiagnostic list" where
  "collectMissingColonDiagnostics doc sev budget =
     (if budget \<le> 0 then [] else missingColonLoop sev budget (enumerate 0 doc) [])"

text \<open>\<open>/^\s*start\s+task\b/i\<close> and \<open>/^\s*end\s+task\b/i\<close>\<close>

definition startRe :: rx where
  "startRe = seqs [Star sp, liti ''start'', plus sp, liti ''task'', Wb]"

definition endRe :: rx where
  "endRe = seqs [Star sp, liti ''end'', plus sp, liti ''task'', Wb]"

text \<open>
  The first loop of \<open>collectTaskBalanceDiagnostics\<close>; the stack holds the lines of the
  open tasks, the innermost first.
\<close>

fun taskBalanceLoop ::
  "nat \<Rightarrow> int \<Rightarrow> (nat \<times> string) list \<Rightarrow> nat list \<Rightarrow> ExtDiagnostic list
     \<Rightarrow> nat list \<times> ExtDiagnostic list" where
  "taskBalanceLoop sev budget [] stack out = (stack, out)"
| "taskBalanceLoop sev budget ((i, l) # rest) stack out =
     (if \<not> int (length out) < budget then (stack, out)
      else let text = stripLineComment l in
        if text = [] then taskBalanceLoop sev budget rest stack out
        else if test_anchored startRe text
        then taskBalanceLoop sev budget rest (i # stack) out
        else if test_anchored endRe text
        then (case stack of
                [] \<Rightarrow> taskBalanceLoop sev budget rest stack
                        (out @ [\<lparr> erange = lineRange i l,
                                  emessage = EndWithoutStart, eseverity = sev \<rparr>])
              | s # stack' \<Rightarrow> taskBalanceLoop sev budget rest stack' out)
        else taskBalanceLoop sev budget rest stack out)"

text \<open>The second loop: the tasks still open, while the budget lasts.\<close>

fun unclosedLoop ::
  "document \<Rightarrow> nat \<Rightarrow> int \<Rightarrow> nat list \<Rightarrow> ExtDiagnostic list \<Rightarrow> ExtDiagnostic list" where
  "unclosedLoop doc sev budget [] out = out"
| "unclosedLoop doc sev budget (unclosed # stack) out =
     (if \<not> int (length out) < budget then out
      else unclosedLoop doc sev budget stack
             (out @ [\<lparr> erange = lineRange unclosed (lineAt doc unclosed),
                       emessage = StartWithoutEnd, eseverity = sev \<rparr>]))"

definition collectTaskBalanceDiagnostics ::
  "document \<Rightarrow> nat \<Rightarrow> int \<Rightarrow> ExtDiagnostic list" where
  "collectTaskBalanceDiagnostics doc sev budget =
     (if budget \<le> 0 then []
      else let (stack, out) = taskBalanceLoop sev budget (enumerate 0 doc) [] []
           in unclosedLoop doc sev budget stack out)"

text \<open>
  The settings \<open>validateDocument\<close> reads: \<open>validation.enable\<close>, \<open>validation.maxProblems\<close>
  (a whole number) and the two lint levels.  The result is the list stored for the
  document, or nothing when validation is disabled (the stored diagnostics are then
  deleted).
\<close>

record ExtConfig =
  validationEnable :: bool
  cfgMaxProblems :: int
  lintMissingColon :: LintLevel
  lintUnbalancedTask :: LintLevel

definition validateDocument :: "ExtConfig \<Rightarrow> document \<Rightarrow> ExtDiagnostic list option" where
  "validateDocument cfg doc =
     (if \<not> validationEnable cfg then None
      else let maxProblems = max 1 (cfgMaxProblems cfg);
               sevMissing = ext_toSeverity (lintMissingColon cfg);
               sevUnbalanced = ext_toSeverity (lintUnbalancedTask cfg);
               diags1 = (if sevMissing \<noteq> 0
                         then collectMissingColonDiagnostics doc sevMissing (maxProblems - 0)
                         else []);
               diags2 = (if int (length diags1) < maxProblems \<and> sevUnbalanced \<noteq> 0
                         then diags1 @ collectTaskBalanceDiagnostics doc sevUnbalanced
                                         (maxProblems - int (length diags1))
                         else diags1)
           in Some diags2)"

section \<open>Notions used in the statements\<close>

text \<open>The keywords with which the header patterns of the language server begin.\<close>

definition headerKeywords :: "string list" where
  "headerKeywords = [''when'', ''on'', ''if'', ''elseif'', ''else'', ''repeat'', ''while'', ''for'',
     ''parallel'', ''template'']"

text \<open>
  What the formatter of the language server tests on a trimmed line: the line is written
  one level lower (\<open>end task\<close> and the \<open>elseif\<close>/\<open>else\<close> headers), the line is a transitional
  header (\<open>elseif\<close>/\<open>else\<close>), the lines after it are written one level higher (\<open>start task\<close>
  and the block headers), and, among the block headers, the \<open>if\<close> and \<open>elseif\<close> headers
  that an \<open>elseif\<close> or \<open>else\<close> can continue.
\<close>

definition fmtDedents :: "string \<Rightarrow> bool" where
  "fmtDedents t = (test_anchored fmtEndTaskRe t \<or> test_anchored fmtTransitionRe t)"

definition fmtTransitional :: "string \<Rightarrow> bool" where
  "fmtTransitional t = test_anchored fmtTransitionRe t"

definition fmtOpens :: "string \<Rightarrow> bool" where
  "fmtOpens t = (test_anchored fmtStartTaskRe t \<or> isBlockHeader t)"

definition isIfOpener :: "string \<Rightarrow> bool" where
  "isIfOpener t = test_anchored (seqs [alts [ifHeader, elseifHeader], Eoi]) t"

text \<open>
  The same for the client-side formatter, which tests its patterns on the line after the
  colon was normalized and the leading white space removed (\<open>extCore\<close>): the line is
  written one level lower if the level is positive (\<open>DECREASE_INDENT_RE\<close>), the lines after
  it one level higher (\<open>INCREASE_INDENT_RE\<close>); the transitional headers are the \<open>elseif\<close>
  and \<open>else\<close> alternatives of \<open>DECREASE_INDENT_RE\<close>.
\<close>

definition extCore :: "string \<Rightarrow> string" where
  "extCore text = trimStart (normalizeHeader text)"

definition extDedents :: "string \<Rightarrow> bool" where
  "extDedents t = test_anchored DECREASE_INDENT_RE t"

definition extOpens :: "string \<Rightarrow> bool" where
  "extOpens t = test_anchored INCREASE_INDENT_RE t"

definition extTransitionRe :: rx where
  "extTransitionRe = seqs [Star sp, alts [
      seqs [liti ''elseif'', Wb, Star dot, lit '':''],
      liti ''else:''], Star sp, Eoi]"

definition extTransitional :: "string \<Rightarrow> bool" where
  "extTransitional t = test_anchored extTransitionRe t"

definition extPre :: "int \<Rightarrow> string \<Rightarrow> int" where
  "extPre lv t = (if extDedents t \<and> lv > 0 then lv - 1 else lv)"

definition extPost :: "int \<Rightarrow> string \<Rightarrow> int" where
  "extPost lv t = (if extOpens t then lv + 1 else lv)"

definition extLevels :: "int \<Rightarrow> document \<Rightarrow> int list" where
  "extLevels cfgIndent doc = map fst (extFormatLoop (max 2 (min 8 cfgIndent)) 0 doc)"

text \<open>
  How the task-balance pass of the client and the outline of the language server read a
  line: as a task opener, as a task closer, or as neither.
\<close>

datatype tok = TOpen | TClose | TOther

definition balanceTok :: "string \<Rightarrow> tok" where
  "balanceTok l =
     (let text = stripLineComment l in
      if text = [] then TOther
      else if test_anchored startRe text then TOpen
      else if test_anchored endRe text then TClose
      else TOther)"

definition outlineTok :: "string \<Rightarrow> tok" where
  "outlineTok l =
     (if taskMatch l \<noteq> None then TOpen
      else if templateMatch l \<noteq> None then TOpen
      else if isEndTask l then TClose
      else TOther)"

text \<open>
  How the task-balance check of the language server reads a line: by the keywords
  \<open>start task\<close> and \<open>end task\<close> alone, with or without a quoted title.
\<close>

definition keywordTok :: "string \<Rightarrow> tok" where
  "keywordTok l = (if isStartTask l then TOpen else if isEndTask l then TClose else TOther)"

text \<open>
  Matching of openers and closers, stated on the counts of openers and closers between
  two lines and without a stack.  A closer at \<open>j\<close> has no opener iff no stretch of lines
  that ends just before \<open>j\<close> holds more openers than closers; an opener at \<open>i\<close> is unmatched
  iff no stretch of lines that begins just after \<open>i\<close> holds more closers than openers.
\<close>

definition countIn :: "tok \<Rightarrow> tok list \<Rightarrow> nat \<Rightarrow> nat \<Rightarrow> nat" where
  "countIn k ks a b = length (filter (\<lambda>x. x = k) (take (b - a) (drop a ks)))"

definition unmatchedCloser :: "tok list \<Rightarrow> nat \<Rightarrow> bool" where
  "unmatchedCloser ks j =
     (j < length ks \<and> ks ! j = TClose
      \<and> list_all (\<lambda>i. countIn TOpen ks i j \<le> countIn TClose ks i j) [0..<j])"

definition unmatchedOpener :: "tok list \<Rightarrow> nat \<Rightarrow> bool" where
  "unmatchedOpener ks i =
     (i < length ks \<and> ks ! i = TOpen
      \<and> list_all (\<lambda>j. countIn TClose ks (Suc i) j \<le> countIn TOpen ks (Suc i) j)
           [Suc i..<Suc (length ks)])"

text \<open>
  The stack discipline both passes follow, without a budget: an opener is pushed, a
  closer pops the innermost open item or, if there is none, is recorded.
\<close>

fun mstep :: "('a \<Rightarrow> tok) \<Rightarrow> 'a list \<times> 'a list \<Rightarrow> 'a \<Rightarrow> 'a list \<times> 'a list" where
  "mstep c (stack, bad) x =
     (case c x of
        TOpen \<Rightarrow> (x # stack, bad)
      | TClose \<Rightarrow> (case stack of [] \<Rightarrow> (stack, bad @ [x]) | s # stack' \<Rightarrow> (stack', bad))
      | TOther \<Rightarrow> (stack, bad))"

definition mrun :: "('a \<Rightarrow> tok) \<Rightarrow> 'a list \<Rightarrow> 'a list \<times> 'a list" where
  "mrun c xs = foldl (mstep c) ([], []) xs"

text \<open>The diagnostics of the client-side passes, one line at a time.\<close>

definition missingAt :: "nat \<Rightarrow> nat \<times> string \<Rightarrow> ExtDiagnostic list" where
  "missingAt sev = (\<lambda>(i, l).
     if isEmptyOrWhitespace l then []
     else let text = trim (stripLineComment l) in
       if text = [] then []
       else if test_anchored HEADER_MAY_REQUIRE_COLON_RE text \<and> \<not> test_anywhere hasColonRe text
       then [\<lparr> erange = lineRange i l, emessage = MissingTrailingColon, eseverity = sev \<rparr>]
       else [])"

definition closerDiag :: "nat \<Rightarrow> nat \<times> string \<Rightarrow> ExtDiagnostic" where
  "closerDiag sev = (\<lambda>(i, l).
     \<lparr> erange = lineRange i l, emessage = EndWithoutStart, eseverity = sev \<rparr>)"

definition openerDiag :: "document \<Rightarrow> nat \<Rightarrow> nat \<Rightarrow> ExtDiagnostic" where
  "openerDiag doc sev i =
     \<lparr> erange = lineRange i (lineAt doc i), emessage = StartWithoutEnd, eseverity = sev \<rparr>"

definition allBalance :: "document \<Rightarrow> nat \<Rightarrow> ExtDiagnostic list" where
  "allBalance doc sev =
     (case mrun (balanceTok \<circ> snd) (enumerate 0 doc) of
        (stack, bad) \<Rightarrow> map (closerDiag sev) bad @ map (openerDiag doc sev \<circ> fst) stack)"

text \<open>The openers less the closers among the lines \<open>a\<close>, ..., \<open>b - 1\<close>.\<close>

definition excess :: "tok list \<Rightarrow> nat \<Rightarrow> nat \<Rightarrow> int" where
  "excess ks a b = int (countIn TOpen ks a b) - int (countIn TClose ks a b)"

text \<open>The frame the outline pushes for an opener line.\<close>

definition frameOf :: "nat \<times> string \<Rightarrow> Frame" where
  "frameOf = (\<lambda>(i, l).
     case taskMatch l of
       Some n \<Rightarrow> \<lparr> fname = n, fstartLine = i, fkind = Module \<rparr>
     | None \<Rightarrow>
         (case templateMatch l of
            Some n \<Rightarrow> \<lparr> fname = ''(template) '' @ n, fstartLine = i, fkind = Class \<rparr>
          | None \<Rightarrow> \<lparr> fname = [], fstartLine = i, fkind = Class \<rparr>))"

text \<open>
  Blank lines and comment-only lines, as the passes of the language server recognize
  them on the trimmed line; the other lines are the visible ones.
\<close>

definition isBlankLine :: "string \<Rightarrow> bool" where
  "isBlankLine l = (trim l = [])"

definition isCommentOnly :: "string \<Rightarrow> bool" where
  "isCommentOnly l = startsWith (trim l) ''//''"

definition isVisible :: "string \<Rightarrow> bool" where
  "isVisible l = (\<not> isBlankLine l \<and> \<not> isCommentOnly l)"

text \<open>
  The folding pass and the client-side task-balance pass, run over any list of numbered
  lines of a document of \<open>n\<close> lines; the handlers run them over all the lines.
\<close>

definition foldsOn :: "nat \<Rightarrow> (nat \<times> string) list \<Rightarrow> FoldingRange list" where
  "foldsOn n ixs =
     (let folds1 = taskFoldLoop ixs None [];
          (stack, folds2) = blockFoldLoop ixs [] folds1
      in closeFolds stack (int n - 1) folds2)"

definition taskBalanceOn ::
  "document \<Rightarrow> nat \<Rightarrow> int \<Rightarrow> (nat \<times> string) list \<Rightarrow> ExtDiagnostic list" where
  "taskBalanceOn doc sev budget ixs =
     (if budget \<le> 0 then []
      else let (stack, out) = taskBalanceLoop sev budget ixs [] []
           in unclosedLoop doc sev budget stack out)"

text \<open>
  Whether a pattern can match without reading a character, and the characters with which
  a match that reads some can begin (both on the safe side).
\<close>

fun nullable :: "rx \<Rightarrow> bool" where
  "nullable Eps = True"
| "nullable (Cls k) = False"
| "nullable (Seq a b) = (nullable a \<and> nullable b)"
| "nullable (Alt a b) = (nullable a \<or> nullable b)"
| "nullable (Star k) = True"
| "nullable (Opt r) = True"
| "nullable Wb = True"
| "nullable Eoi = True"

fun first :: "rx \<Rightarrow> char \<Rightarrow> bool" where
  "first Eps c = False"
| "first (Cls k) c = cc_ok k c"
| "first (Seq a b) c = (first a c \<or> (nullable a \<and> first b c))"
| "first (Alt a b) c = (first a c \<or> first b c)"
| "first (Star k) c = cc_ok k c"
| "first (Opt r) c = first r c"
| "first Wb c = False"
| "first Eoi c = False"

section \<open>Facts about the patterns\<close>

lemma rmatch_lit:
  "rmatch (lit w) p =
     (if prefix w (snd p) then [(if w = [] then fst p else Some (last w), drop (length w) (snd p))]
      else [])"
proof (induction w arbitrary: p)
  case Nil
  then show ?case by simp
next
  case (Cons c w)
  show ?case
  proof (cases "snd p")
    case Nil
    then show ?thesis by simp
  next
    case (Cons d ds)
    then show ?thesis using Cons.IH [of "(Some d, ds)"] by (cases "w = []") auto
  qed
qed

lemma rmatch_Seq_lit_prefix:
  "rmatch (Seq (lit w) r) p \<noteq> [] \<Longrightarrow> prefix w (snd p)"
  by (simp add: rmatch_lit split: if_splits)

lemma star_cls_split:
  "q \<in> set (star_cls k b s) \<Longrightarrow> \<exists>ws. s = ws @ snd q \<and> list_all (cc_ok k) ws"
proof (induction s arbitrary: b)
  case Nil
  then show ?case by simp
next
  case (Cons c cs)
  show ?case
  proof (cases "q = (b, c # cs)")
    case True
    then show ?thesis by (intro exI [of _ "[]"]) simp
  next
    case False
    with Cons.prems have ok: "cc_ok k c" and "q \<in> set (star_cls k (Some c) cs)"
      by (auto split: if_splits)
    then obtain ws where "cs = ws @ snd q" "list_all (cc_ok k) ws"
      using Cons.IH by blast
    then show ?thesis using ok by (intro exI [of _ "c # ws"]) simp
  qed
qed

lemma trimStart_spaces_append:
  "list_all (cc_ok sp) ws \<Longrightarrow> \<not> is_space c \<Longrightarrow> trimStart (ws @ c # r) = c # r"
  by (induction ws) (auto simp: trimStart_def sp_def is_space_def)

lemma lead_space_lit:
  assumes "rmatch (Seq (Star sp) (Seq (lit (c # w)) r)) (b, l) \<noteq> []" "\<not> is_space c"
  shows "prefix (c # w) (trimStart l)"
proof -
  from assms(1) obtain q where q: "q \<in> set (star_cls sp b l)"
    and m: "rmatch (Seq (lit (c # w)) r) q \<noteq> []"
    by auto
  from m have pre: "prefix (c # w) (snd q)" by (rule rmatch_Seq_lit_prefix)
  then obtain r' where sq: "snd q = c # r'" by (cases "snd q") auto
  from star_cls_split [OF q] obtain ws where "l = ws @ snd q" "list_all (cc_ok sp) ws" by blast
  then have "trimStart l = snd q" using sq assms(2) by (simp add: trimStart_spaces_append)
  then show ?thesis using pre by simp
qed

lemma isStartTask_prefix: "isStartTask l \<Longrightarrow> prefix ''start'' (trimStart l)"
  unfolding isStartTask_def test_anchored_def startTaskRe_def
  by (rule lead_space_lit [where r = "seqs [plus sp, lit ''task'', Wb]" and b = None])
     (simp_all add: is_space_def js_space_def)

lemma isEndTask_prefix: "isEndTask l \<Longrightarrow> prefix ''end'' (trimStart l)"
  unfolding isEndTask_def test_anchored_def endTaskRe_def
  by (rule lead_space_lit [where r = "seqs [plus sp, lit ''task'', Wb]" and b = None])
     (simp_all add: is_space_def js_space_def)

lemma prefix_trimEnd: "prefix (trimEnd s) s"
proof -
  have "suffix (dropWhile is_space (rev s)) (rev s)" by (rule suffix_dropWhile)
  then show ?thesis unfolding trimEnd_def by (metis rev_rev_ident suffix_to_prefix)
qed

lemma prefix_trim: "prefix w (trim l) \<Longrightarrow> prefix w (trimStart l)"
  unfolding trim_def using prefix_trimEnd prefix_order.trans by blast

lemma seq_alt_cases:
  assumes "rmatch (Seq (Alt a b) r) p \<noteq> []"
  obtains "rmatch (Seq a r) p \<noteq> []" | "rmatch (Seq b r) p \<noteq> []"
  using assms by auto

lemma seq_seq_lit_prefix:
  "rmatch (Seq (Seq (lit w) x) r) p \<noteq> [] \<Longrightarrow> prefix w (snd p)"
  by (auto simp: rmatch_lit split: if_splits)

lemma colonCandidate_keyword:
  "test_anchored colonCandidateRe t \<Longrightarrow> \<exists>k \<in> set headerKeywords. prefix k t"
  unfolding test_anchored_def colonCandidateRe_def headerKeywords_def
  apply (simp only: seqs.simps alts.simps)
  apply (elim seq_alt_cases)
  apply (drule seq_seq_lit_prefix, simp)+
  done

lemma blockHeader_keyword:
  "isBlockHeader t \<Longrightarrow> \<exists>k \<in> set headerKeywords. prefix k t"
  unfolding isBlockHeader_def test_anchored_def blockHeaderRe_def headerKeywords_def
    ifHeader_def elseifHeader_def elseHeader_def
  apply (simp only: seqs.simps alts.simps)
  apply (elim seq_alt_cases)
  apply (drule seq_seq_lit_prefix, simp)+
  done

lemma keyword_not_task:
  assumes "k \<in> set headerKeywords" "prefix k s"
  shows "\<not> prefix ''start'' s \<and> \<not> prefix ''end'' s"
  using assms unfolding headerKeywords_def
  by (cases s; cases "tl s") (auto simp: prefix_def)

section \<open>The client-side passes without their budget\<close>

lemma unclosedLoop_take:
  "length out \<le> nat b \<Longrightarrow>
     unclosedLoop doc sev b stack out = take (nat b) (out @ map (openerDiag doc sev) stack)"
proof (induction stack arbitrary: out)
  case Nil
  then show ?case by simp
next
  case (Cons s stack)
  show ?case
  proof (cases "int (length out) < b")
    case True
    then have "length (out @ [openerDiag doc sev s]) \<le> nat b" by simp
    from Cons.IH [OF this] True show ?thesis by (simp add: openerDiag_def)
  next
    case False
    with Cons.prems have "length out = nat b" by linarith
    then show ?thesis using False by simp
  qed
qed

lemma mstep_bad_append:
  "mstep c (S, B @ B') x = (fst (mstep c (S, B') x), B @ snd (mstep c (S, B') x))"
  by (auto split: tok.splits list.splits)

lemma foldl_mstep_bad:
  "foldl (mstep c) (S, B) xs
     = (fst (foldl (mstep c) (S, []) xs), B @ snd (foldl (mstep c) (S, []) xs))"
proof (induction xs arbitrary: S B)
  case Nil
  then show ?case by simp
next
  case (Cons x xs)
  obtain S' B' where st: "mstep c (S, []) x = (S', B')" by (cases "mstep c (S, []) x")
  have "mstep c (S, B) x = (S', B @ B')"
    using mstep_bad_append [of c S B "[]" x] st by simp
  then show ?case
    using Cons.IH [of S' "B @ B'"] Cons.IH [of S' B'] st by simp
qed

lemma taskBalanceLoop_stop:
  "\<not> int (length out) < b \<Longrightarrow> taskBalanceLoop sev b xs stack out = (stack, out)"
  by (cases xs) auto

lemma taskBalance_take:
  "length out \<le> nat b \<Longrightarrow>
     unclosedLoop doc sev b (fst (taskBalanceLoop sev b xs (map fst S) out))
       (snd (taskBalanceLoop sev b xs (map fst S) out))
     = take (nat b) (out @ map (closerDiag sev) (snd (foldl (mstep (balanceTok \<circ> snd)) (S, []) xs))
                       @ map (openerDiag doc sev) (map fst (fst (foldl (mstep (balanceTok \<circ> snd)) (S, []) xs))))"
proof (induction xs arbitrary: S out)
  case Nil
  then show ?case by (simp add: unclosedLoop_take)
next
  case (Cons x xs)
  obtain i l where x: "x = (i, l)" by (cases x)
  let ?F = "\<lambda>S. foldl (mstep (balanceTok \<circ> snd)) (S, []) xs"
  show ?case
  proof (cases "int (length out) < b")
    case False
    with Cons.prems have len: "length out = nat b" by linarith
    have "taskBalanceLoop sev b (x # xs) (map fst S) out = (map fst S, out)"
      using False by (rule taskBalanceLoop_stop)
    moreover have "unclosedLoop doc sev b (map fst S) out = out"
      using unclosedLoop_take [OF Cons.prems] len by simp
    ultimately show ?thesis using len by simp
  next
    case True
    show ?thesis
    proof (cases "balanceTok l")
      case TOpen
      then have "taskBalanceLoop sev b (x # xs) (map fst S) out
                   = taskBalanceLoop sev b xs (map fst ((i, l) # S)) out"
        using True x by (simp add: balanceTok_def Let_def split: if_splits)
      moreover have "foldl (mstep (balanceTok \<circ> snd)) (S, []) (x # xs) = ?F ((i, l) # S)"
        using TOpen x by simp
      ultimately show ?thesis using Cons.IH [OF Cons.prems, of "(i, l) # S"] by (simp only:)
    next
      case TOther
      then have "taskBalanceLoop sev b (x # xs) (map fst S) out
                   = taskBalanceLoop sev b xs (map fst S) out"
        using True x by (simp add: balanceTok_def Let_def split: if_splits)
      moreover have "foldl (mstep (balanceTok \<circ> snd)) (S, []) (x # xs) = ?F S"
        using TOther x by simp
      ultimately show ?thesis using Cons.IH [OF Cons.prems, of S] by (simp only:)
    next
      case TClose
      show ?thesis
      proof (cases S)
        case (Cons s S')
        then have "taskBalanceLoop sev b (x # xs) (map fst S) out
                     = taskBalanceLoop sev b xs (map fst S') out"
          using True x TClose by (simp add: balanceTok_def Let_def split: if_splits)
        moreover have "foldl (mstep (balanceTok \<circ> snd)) (S, []) (x # xs) = ?F S'"
          using TClose x Cons by simp
        ultimately show ?thesis using Cons.IH [OF Cons.prems, of S'] by (simp only:)
      next
        case Nil
        have len': "length (out @ [closerDiag sev (i, l)]) \<le> nat b" using True by simp
        have A: "taskBalanceLoop sev b (x # xs) (map fst S) out
                = taskBalanceLoop sev b xs (map fst ([] :: (nat \<times> string) list))
                    (out @ [closerDiag sev (i, l)])"
          using True x TClose Nil
          by (simp add: balanceTok_def Let_def closerDiag_def split: if_splits)
        have "foldl (mstep (balanceTok \<circ> snd)) (S, []) (x # xs)
                = foldl (mstep (balanceTok \<circ> snd)) ([], [(i, l)]) xs"
          using TClose x Nil by simp
        also have "\<dots> = (fst (?F []), [(i, l)] @ snd (?F []))"
          using foldl_mstep_bad [of "balanceTok \<circ> snd" "[]" "[(i, l)]" xs] by simp
        finally have B: "foldl (mstep (balanceTok \<circ> snd)) (S, []) (x # xs)
                = (fst (?F []), [(i, l)] @ snd (?F []))" .
        show ?thesis
          unfolding A B using Cons.IH [OF len', of "[]"] by (simp add: comp_def)
      qed
    qed
  qed
qed

lemma collectTaskBalance_take:
  "collectTaskBalanceDiagnostics doc sev b = take (nat b) (allBalance doc sev)"
proof (cases "b \<le> 0")
  case True
  then show ?thesis by (simp add: collectTaskBalanceDiagnostics_def)
next
  case False
  have "unclosedLoop doc sev b (fst (taskBalanceLoop sev b (enumerate 0 doc) [] []))
          (snd (taskBalanceLoop sev b (enumerate 0 doc) [] []))
        = take (nat b) (allBalance doc sev)"
    using taskBalance_take [where out = "[]" and b = b and sev = sev and xs = "enumerate 0 doc"
        and S = "[]" and doc = doc]
    by (simp add: allBalance_def mrun_def case_prod_unfold del: take_append)
  then show ?thesis using False
    by (simp add: collectTaskBalanceDiagnostics_def case_prod_unfold)
qed

lemma missingColonLoop_take:
  "length out \<le> nat b \<Longrightarrow>
     missingColonLoop sev b xs out = take (nat b) (out @ concat (map (missingAt sev) xs))"
proof (induction xs arbitrary: out)
  case Nil
  then show ?case by simp
next
  case (Cons x xs)
  obtain i l where x: "x = (i, l)" by (cases x)
  show ?case
  proof (cases "int (length out) < b")
    case False
    with Cons.prems have "length out = nat b" by linarith
    then show ?thesis using False x by simp
  next
    case True
    show ?thesis
    proof (cases "missingAt sev (i, l) = []")
      case True
      then have "missingColonLoop sev b (x # xs) out = missingColonLoop sev b xs out"
        using \<open>int (length out) < b\<close> x
        by (auto simp: missingAt_def Let_def split: if_splits)
      then show ?thesis using Cons.IH [OF Cons.prems] True x by simp
    next
      case False
      then have m: "missingAt sev (i, l)
                 = [\<lparr> erange = lineRange i l, emessage = MissingTrailingColon, eseverity = sev \<rparr>]"
        by (simp add: missingAt_def Let_def split: if_splits)
      have len': "length (out @ missingAt sev (i, l)) \<le> nat b" using True m by simp
      have "missingColonLoop sev b (x # xs) out
              = missingColonLoop sev b xs (out @ missingAt sev (i, l))"
        using True x False m by (auto simp: missingAt_def Let_def split: if_splits)
      then show ?thesis using Cons.IH [OF len'] x by simp
    qed
  qed
qed

lemma collectMissingColon_take:
  "collectMissingColonDiagnostics doc sev b
     = take (nat b) (concat (map (missingAt sev) (enumerate 0 doc)))"
proof (cases "b \<le> 0")
  case True
  then show ?thesis by (simp add: collectMissingColonDiagnostics_def)
next
  case False
  then show ?thesis
    using missingColonLoop_take [where out = "[]" and b = b and sev = sev and xs = "enumerate 0 doc"]
    by (simp add: collectMissingColonDiagnostics_def)
qed

lemma take_append_take:
  "take n xs @ take (n - length (take n xs)) ys = take n (xs @ ys)"
  by (cases "length xs \<le> n") simp_all

lemma validateDocument_take:
  "validationEnable cfg \<Longrightarrow>
     validateDocument cfg doc
       = Some (take (nat (max 1 (cfgMaxProblems cfg)))
           ((if ext_toSeverity (lintMissingColon cfg) \<noteq> 0
             then concat (map (missingAt (ext_toSeverity (lintMissingColon cfg))) (enumerate 0 doc))
             else [])
            @ (if ext_toSeverity (lintUnbalancedTask cfg) \<noteq> 0
               then allBalance doc (ext_toSeverity (lintUnbalancedTask cfg)) else [])))"
proof -
  assume en: "validationEnable cfg"
  define N where "N = nat (max 1 (cfgMaxProblems cfg))"
  define M where "M = (if ext_toSeverity (lintMissingColon cfg) \<noteq> 0
             then concat (map (missingAt (ext_toSeverity (lintMissingColon cfg))) (enumerate 0 doc))
             else [])"
  define B where "B = allBalance doc (ext_toSeverity (lintUnbalancedTask cfg))"
  have N: "max 1 (cfgMaxProblems cfg) = int N" by (simp add: N_def)
  have d1: "(if ext_toSeverity (lintMissingColon cfg) \<noteq> 0
             then collectMissingColonDiagnostics doc (ext_toSeverity (lintMissingColon cfg))
                    (int N - 0)
             else []) = take N M"
    by (simp add: collectMissingColon_take M_def)
  have d2: "collectTaskBalanceDiagnostics doc (ext_toSeverity (lintUnbalancedTask cfg))
              (int N - int (length (take N M)))
            = take (N - length (take N M)) B"
    by (simp add: collectTaskBalance_take B_def nat_diff_distrib')
  have v: "validateDocument cfg doc
             = Some (if int (length (take N M)) < int N \<and> ext_toSeverity (lintUnbalancedTask cfg) \<noteq> 0
                     then take N M @ take (N - length (take N M)) B else take N M)"
    using en unfolding validateDocument_def Let_def N d1 d2 by (simp only: if_False not_True_eq_False)
  have full: "take N (M @ X) = take N M" if "\<not> length (take N M) < N" for X
    using that by simp
  have "(if int (length (take N M)) < int N \<and> ext_toSeverity (lintUnbalancedTask cfg) \<noteq> 0
         then take N M @ take (N - length (take N M)) B else take N M)
        = take N (M @ (if ext_toSeverity (lintUnbalancedTask cfg) \<noteq> 0 then B else []))"
  proof (cases "ext_toSeverity (lintUnbalancedTask cfg) \<noteq> 0")
    case False
    then show ?thesis by simp
  next
    case True
    show ?thesis
    proof (cases "length (take N M) < N")
      case True
      then show ?thesis
        using \<open>ext_toSeverity (lintUnbalancedTask cfg) \<noteq> 0\<close> take_append_take [of N M B]
        by (simp del: take_append length_take)
    next
      case False
      then show ?thesis using full [of B] True by (simp del: take_append length_take)
    qed
  qed
  then show ?thesis unfolding v M_def B_def N_def by (simp only:)
qed

section \<open>Matching openers and closers\<close>

lemma countIn_empty [simp]: "countIn k ks a a = 0"
  by (simp add: countIn_def)

lemma countIn_split:
  "a \<le> b \<Longrightarrow> b \<le> c \<Longrightarrow> countIn k ks a c = countIn k ks a b + countIn k ks b c"
proof -
  assume ab: "a \<le> b" and bc: "b \<le> c"
  have "c - a = (b - a) + (c - b)" using ab bc by simp
  then have "take (c - a) (drop a ks) = take (b - a) (drop a ks) @ take (c - b) (drop (b - a) (drop a ks))"
    by (simp only: take_add)
  moreover have "drop (b - a) (drop a ks) = drop b ks" using ab by simp
  ultimately show ?thesis by (simp add: countIn_def)
qed

lemma countIn_single:
  "a < length ks \<Longrightarrow> countIn k ks a (Suc a) = (if ks ! a = k then 1 else 0)"
  by (simp add: countIn_def take_Suc hd_drop_conv_nth)

lemma countIn_snoc:
  "b \<le> length ks \<Longrightarrow> countIn k (ks @ [x]) a b = countIn k ks a b"
  by (simp add: countIn_def)

lemma excess_empty [simp]: "excess ks a a = 0"
  by (simp add: excess_def)

lemma excess_split:
  "a \<le> b \<Longrightarrow> b \<le> c \<Longrightarrow> excess ks a c = excess ks a b + excess ks b c"
  by (simp add: excess_def countIn_split [of a b c])

lemma excess_single:
  "a < length ks \<Longrightarrow>
     excess ks a (Suc a) = (if ks ! a = TOpen then 1 else if ks ! a = TClose then - 1 else 0)"
  by (simp add: excess_def countIn_single)

lemma excess_snoc: "b \<le> length ks \<Longrightarrow> excess (ks @ [x]) a b = excess ks a b"
  by (simp add: excess_def countIn_snoc)

lemma excess_first:
  "a < b \<Longrightarrow> a < length ks \<Longrightarrow>
     excess ks a b = (if ks ! a = TOpen then 1 else if ks ! a = TClose then - 1 else 0)
                       + excess ks (Suc a) b"
  using excess_split [of a "Suc a" b ks] by (simp add: excess_single)

lemma excess_last:
  "a \<le> b \<Longrightarrow> b < length ks \<Longrightarrow>
     excess ks a (Suc b) = excess ks a b
        + (if ks ! b = TOpen then 1 else if ks ! b = TClose then - 1 else 0)"
  using excess_split [of a b "Suc b" ks] by (simp add: excess_single)

lemma unmatchedCloser_iff:
  "unmatchedCloser ks j \<longleftrightarrow>
     j < length ks \<and> ks ! j = TClose \<and> (\<forall>i<j. excess ks i j \<le> 0)"
  by (auto simp: unmatchedCloser_def excess_def list_all_iff)

lemma unmatchedOpener_iff:
  "unmatchedOpener ks i \<longleftrightarrow>
     i < length ks \<and> ks ! i = TOpen \<and> (\<forall>j. i < j \<and> j \<le> length ks \<longrightarrow> 0 \<le> excess ks (Suc i) j)"
proof -
  have *: "(\<forall>j\<in>set [Suc i..<Suc (length ks)]. Q j) \<longleftrightarrow> (\<forall>j. i < j \<and> j \<le> length ks \<longrightarrow> Q j)"
    for Q :: "nat \<Rightarrow> bool"
  proof -
    have "set [Suc i..<Suc (length ks)] = {j. i < j \<and> j \<le> length ks}" by auto
    then show ?thesis by blast
  qed
  show ?thesis unfolding unmatchedOpener_def list_all_iff * by (simp add: excess_def)
qed

text \<open>
  If no opener from \<open>a\<close> on is unmatched, no stretch that begins at or after \<open>a\<close> and runs
  to the end holds more openers than closers.
\<close>

lemma no_unmatched_excess:
  assumes none: "\<forall>i. a \<le> i \<and> i < length ks \<longrightarrow> \<not> unmatchedOpener ks i"
  shows "a \<le> i \<Longrightarrow> i \<le> length ks \<Longrightarrow> excess ks i (length ks) \<le> 0"
proof (induction "length ks - i" arbitrary: i rule: less_induct)
  case less
  show ?case
  proof (cases "i = length ks")
    case True
    then show ?thesis by simp
  next
    case False
    with less.prems have i: "i < length ks" by simp
    have next_le: "excess ks (Suc i) (length ks) \<le> 0"
      using less.hyps [of "Suc i"] less.prems i by simp
    show ?thesis
    proof (cases "ks ! i = TOpen")
      case False
      then show ?thesis using excess_first [of i "length ks" ks] i next_le by simp
    next
      case True
      have "\<not> unmatchedOpener ks i" using none less.prems i by simp
      then obtain j where j: "i < j" "j \<le> length ks" "excess ks (Suc i) j < 0"
        using True i by (auto simp: unmatchedOpener_iff not_le)
      have "excess ks j (length ks) \<le> 0"
        using less.hyps [of j] j less.prems by simp
      moreover have "excess ks (Suc i) (length ks) = excess ks (Suc i) j + excess ks j (length ks)"
        using excess_split [of "Suc i" j "length ks" ks] j by simp
      ultimately have "excess ks (Suc i) (length ks) \<le> - 1" using j(3) by simp
      then show ?thesis using excess_first [of i "length ks" ks] i True by simp
    qed
  qed
qed

text \<open>The last element of a list of selected line numbers.\<close>

lemma filter_upt_last:
  "filter P [0..<n] \<noteq> [] \<Longrightarrow>
     \<exists>s<n. P s \<and> (\<forall>i. s < i \<and> i < n \<longrightarrow> \<not> P i) \<and> filter P [0..<n] = filter P [0..<s] @ [s]"
proof (induction n)
  case 0
  then show ?case by simp
next
  case (Suc n)
  show ?case
  proof (cases "P n")
    case True
    then show ?thesis by (intro exI [of _ n]) auto
  next
    case False
    with Suc.prems have "filter P [0..<n] \<noteq> []" by simp
    from Suc.IH [OF this] obtain s where s: "s < n" "P s" "\<forall>i. s < i \<and> i < n \<longrightarrow> \<not> P i"
      "filter P [0..<n] = filter P [0..<s] @ [s]" by blast
    then show ?thesis using False
      by (intro exI [of _ s]) (auto simp: less_Suc_eq)
  qed
qed

lemma unmatchedCloser_snoc_old:
  "j < length ks \<Longrightarrow> unmatchedCloser (ks @ [k]) j = unmatchedCloser ks j"
  by (simp add: unmatchedCloser_iff excess_snoc nth_append)

lemma unmatchedCloser_snoc_new:
  "unmatchedCloser (ks @ [k]) (length ks) \<longleftrightarrow>
     k = TClose \<and> (\<forall>i<length ks. excess ks i (length ks) \<le> 0)"
  by (simp add: unmatchedCloser_iff excess_snoc)

lemma unmatchedOpener_snoc_old:
  assumes "i < length ks"
  shows "unmatchedOpener (ks @ [k]) i \<longleftrightarrow>
     unmatchedOpener ks i
     \<and> 0 \<le> excess ks (Suc i) (length ks)
              + (if k = TOpen then 1 else if k = TClose then - 1 else 0)"
proof -
  have last: "excess (ks @ [k]) (Suc i) (Suc (length ks))
                = excess ks (Suc i) (length ks)
                    + (if k = TOpen then 1 else if k = TClose then - 1 else 0)"
    using excess_last [of "Suc i" "length ks" "ks @ [k]"] assms by (simp add: excess_snoc)
  have "(\<forall>j. i < j \<and> j \<le> Suc (length ks) \<longrightarrow> 0 \<le> excess (ks @ [k]) (Suc i) j)
        \<longleftrightarrow> (\<forall>j. i < j \<and> j \<le> length ks \<longrightarrow> 0 \<le> excess ks (Suc i) j)
            \<and> 0 \<le> excess (ks @ [k]) (Suc i) (Suc (length ks))"
    (is "?A \<longleftrightarrow> ?B \<and> ?C")
  proof
    assume a: ?A
    have "?B"
    proof (intro allI impI)
      fix j assume "i < j \<and> j \<le> length ks"
      then show "0 \<le> excess ks (Suc i) j" using a excess_snoc [of j ks k "Suc i"] by auto
    qed
    moreover have ?C using a assms by simp
    ultimately show "?B \<and> ?C" ..
  next
    assume bc: "?B \<and> ?C"
    show ?A
    proof (intro allI impI)
      fix j assume j: "i < j \<and> j \<le> Suc (length ks)"
      show "0 \<le> excess (ks @ [k]) (Suc i) j"
      proof (cases "j = Suc (length ks)")
        case True
        then show ?thesis using bc by simp
      next
        case False
        with j have "j \<le> length ks" by simp
        then show ?thesis using bc j by (simp add: excess_snoc)
      qed
    qed
  qed
  then show ?thesis using assms last by (simp add: unmatchedOpener_iff nth_append)
qed

lemma unmatchedOpener_snoc_new:
  "unmatchedOpener (ks @ [k]) (length ks) \<longleftrightarrow> k = TOpen"
proof -
  have "0 \<le> excess (ks @ [k]) (Suc (length ks)) j" if "length ks < j \<and> j \<le> Suc (length ks)" for j
  proof -
    from that have "j = Suc (length ks)" by simp
    then show ?thesis by simp
  qed
  then show ?thesis by (simp add: unmatchedOpener_iff)
qed

lemma unmatchedOpener_tail: "unmatchedOpener ks i \<Longrightarrow> 0 \<le> excess ks (Suc i) (length ks)"
  by (simp add: unmatchedOpener_iff)

lemma mrun_snoc: "mrun c (xs @ [x]) = mstep c (mrun c xs) x"
  by (simp add: mrun_def)

lemma filter_upt_snoc:
  "filter P [0..<Suc n] = filter P [0..<n] @ (if P n then [n] else [])"
  by simp

lemma map_nth_snoc:
  "\<forall>i \<in> set is. i < length xs \<Longrightarrow> map ((!) (xs @ [x])) is = map ((!) xs) is"
  by (induction "is") (simp_all add: nth_append)

lemma filter_upt_bound: "\<forall>i \<in> set (filter P [0..<n]). i < n"
  by simp

text \<open>
  The stack discipline leaves on its stack exactly the unmatched openers, the innermost
  first, and records exactly the closers without opener, in the order of the lines.
\<close>

lemma mrun_unmatched:
  "mrun c xs =
     (rev (map ((!) xs) (filter (unmatchedOpener (map c xs)) [0..<length xs])),
      map ((!) xs) (filter (unmatchedCloser (map c xs)) [0..<length xs]))"
proof (induction xs rule: rev_induct)
  case Nil
  then show ?case by (simp add: mrun_def)
next
  case (snoc x xs)
  define ks where "ks = map c xs"
  define n where "n = length xs"
  define F where "F = filter (unmatchedOpener ks) [0..<n]"
  define G where "G = filter (unmatchedCloser ks) [0..<n]"
  have nk: "length ks = n" by (simp add: ks_def n_def)
  have IH: "mrun c xs = (rev (map ((!) xs) F), map ((!) xs) G)"
    using snoc.IH by (simp add: F_def G_def ks_def n_def)
  have G_old: "filter (unmatchedCloser (ks @ [c x])) [0..<n] = G"
    unfolding G_def using nk by (intro filter_cong) (simp_all add: unmatchedCloser_snoc_old)
  have mapF: "map ((!) (xs @ [x])) (filter P [0..<n]) = map ((!) xs) (filter P [0..<n])" for P
    by (rule map_nth_snoc) (simp add: n_def)
  have goal_eq: "mrun c (xs @ [x]) =
     (rev (map ((!) (xs @ [x])) (filter (unmatchedOpener (ks @ [c x])) [0..<n]
                                   @ (if unmatchedOpener (ks @ [c x]) n then [n] else []))),
      map ((!) (xs @ [x])) (G @ (if unmatchedCloser (ks @ [c x]) n then [n] else [])))
     \<Longrightarrow> ?case"
    using G_old by (simp add: ks_def n_def)
  have opener_old: "unmatchedOpener (ks @ [c x]) i \<longleftrightarrow>
      unmatchedOpener ks i
      \<and> 0 \<le> excess ks (Suc i) n + (if c x = TOpen then 1 else if c x = TClose then - 1 else 0)"
    if "i < n" for i
    using unmatchedOpener_snoc_old [of i ks "c x"] that nk by simp
  show ?case
  proof (cases "c x")
    case TOther
    have "filter (unmatchedOpener (ks @ [c x])) [0..<n] = F"
      unfolding F_def
    proof (intro filter_cong refl)
      fix i assume "i \<in> set [0..<n]"
      then have "i < n" by simp
      then show "unmatchedOpener (ks @ [c x]) i = unmatchedOpener ks i"
        using opener_old [of i] unmatchedOpener_tail [of ks i] TOther nk by auto
    qed
    moreover have "\<not> unmatchedOpener (ks @ [c x]) n"
      using unmatchedOpener_snoc_new [of ks "c x"] TOther nk by simp
    moreover have "\<not> unmatchedCloser (ks @ [c x]) n"
      using unmatchedCloser_snoc_new [of ks "c x"] TOther nk by simp
    moreover have "mrun c (xs @ [x]) = (rev (map ((!) xs) F), map ((!) xs) G)"
      using IH TOther by (simp add: mrun_snoc)
    ultimately show ?thesis
      by (intro goal_eq) (simp add: mapF F_def G_def)
  next
    case TOpen
    have "filter (unmatchedOpener (ks @ [c x])) [0..<n] = F"
      unfolding F_def
    proof (intro filter_cong refl)
      fix i assume "i \<in> set [0..<n]"
      then have "i < n" by simp
      then show "unmatchedOpener (ks @ [c x]) i = unmatchedOpener ks i"
        using opener_old [of i] unmatchedOpener_tail [of ks i] TOpen nk by auto
    qed
    moreover have "unmatchedOpener (ks @ [c x]) n"
      using unmatchedOpener_snoc_new [of ks "c x"] TOpen nk by simp
    moreover have "\<not> unmatchedCloser (ks @ [c x]) n"
      using unmatchedCloser_snoc_new [of ks "c x"] TOpen nk by simp
    moreover have "mrun c (xs @ [x]) = (x # rev (map ((!) xs) F), map ((!) xs) G)"
      using IH TOpen by (simp add: mrun_snoc)
    ultimately show ?thesis
      by (intro goal_eq) (simp add: mapF F_def G_def n_def nth_append)
  next
    case TClose
    have not_new: "\<not> unmatchedOpener (ks @ [c x]) n"
      using unmatchedOpener_snoc_new [of ks "c x"] TClose nk by simp
    show ?thesis
    proof (cases "F = []")
      case True
      then have none: "\<forall>i. 0 \<le> i \<and> i < length ks \<longrightarrow> \<not> unmatchedOpener ks i"
        by (simp add: F_def filter_empty_conv nk)
      have "excess ks i n \<le> 0" if "i < n" for i
        using no_unmatched_excess [OF none, of i] that nk by simp
      then have "unmatchedCloser (ks @ [c x]) n"
        using unmatchedCloser_snoc_new [of ks "c x"] TClose nk by simp
      moreover have "filter (unmatchedOpener (ks @ [c x])) [0..<n] = []"
        using True opener_old by (auto simp: F_def filter_empty_conv)
      moreover have "mrun c (xs @ [x]) = ([], map ((!) xs) G @ [x])"
        using IH TClose True by (simp add: mrun_snoc)
      ultimately show ?thesis
        using not_new by (intro goal_eq) (simp add: mapF G_def n_def nth_append)
    next
      case False
      then obtain s where s: "s < n" "unmatchedOpener ks s"
        "\<forall>i. s < i \<and> i < n \<longrightarrow> \<not> unmatchedOpener ks i"
        "F = filter (unmatchedOpener ks) [0..<s] @ [s]"
        using filter_upt_last [of "unmatchedOpener ks" n] by (auto simp: F_def)
      have open_s: "ks ! s = TOpen" using s(2) by (simp add: unmatchedOpener_iff)
      have after_s: "excess ks (Suc s) n \<le> 0"
        using no_unmatched_excess [of "Suc s" ks "Suc s"] s(1,3) nk by simp
      have tail_s: "0 \<le> excess ks (Suc s) n" using unmatchedOpener_tail [OF s(2)] nk by simp
      have from_s: "excess ks s n = 1 + excess ks (Suc s) n"
        using excess_first [of s n ks] s(1) open_s nk by simp
      have below: "unmatchedOpener (ks @ [c x]) i = unmatchedOpener ks i" if "i < s" for i
      proof (cases "unmatchedOpener ks i")
        case False
        then show ?thesis using opener_old [of i] that s(1) by simp
      next
        case True
        then have "0 \<le> excess ks (Suc i) s"
          using that s(1) nk by (simp add: unmatchedOpener_iff)
        moreover have "excess ks (Suc i) n = excess ks (Suc i) s + excess ks s n"
          using excess_split [of "Suc i" s n ks] that s(1) by simp
        ultimately have "1 \<le> excess ks (Suc i) n" using from_s tail_s by simp
        then show ?thesis using opener_old [of i] that s(1) True TClose by simp
      qed
      have above: "\<not> unmatchedOpener (ks @ [c x]) i" if "s \<le> i" "i < n" for i
      proof (cases "i = s")
        case True
        then show ?thesis using opener_old [of s] s(1) after_s TClose by simp
      next
        case False
        with that have "s < i" by simp
        then show ?thesis using opener_old [of i] that s(3) by simp
      qed
      have "[0..<n] = [0..<s] @ [s..<n]"
        using s(1) by (metis le_add_diff_inverse less_imp_le_nat upt_add_eq_append zero_le)
      then have "filter (unmatchedOpener (ks @ [c x])) [0..<n]
                   = filter (unmatchedOpener (ks @ [c x])) [0..<s]
                       @ filter (unmatchedOpener (ks @ [c x])) [s..<n]"
        by simp
      moreover have "filter (unmatchedOpener (ks @ [c x])) [s..<n] = []"
        using above by (simp add: filter_empty_conv)
      moreover have "filter (unmatchedOpener (ks @ [c x])) [0..<s]
                       = filter (unmatchedOpener ks) [0..<s]"
        using below by (intro filter_cong) simp_all
      ultimately have F': "filter (unmatchedOpener (ks @ [c x])) [0..<n]
                             = filter (unmatchedOpener ks) [0..<s]"
        by simp
      have "\<not> excess ks s n \<le> 0" using from_s tail_s by simp
      then have not_closer: "\<not> unmatchedCloser (ks @ [c x]) n"
        using unmatchedCloser_snoc_new [of ks "c x"] s(1) nk by auto
      have "mrun c xs = (xs ! s # rev (map ((!) xs) (filter (unmatchedOpener ks) [0..<s])),
                         map ((!) xs) G)"
        using IH s(4) by simp
      then have "mrun c (xs @ [x])
                   = (rev (map ((!) xs) (filter (unmatchedOpener ks) [0..<s])), map ((!) xs) G)"
        using TClose by (simp add: mrun_snoc)
      moreover have "map ((!) (xs @ [x])) (filter (unmatchedOpener ks) [0..<s])
                       = map ((!) xs) (filter (unmatchedOpener ks) [0..<s])"
        using s(1) by (intro map_nth_snoc) (simp add: n_def)
      ultimately show ?thesis
        using not_new not_closer F'
        by (intro goal_eq) (simp add: mapF G_def)
    qed
  qed
qed

section \<open>Task balance in the language server\<close>

text \<open>
  Claim C1 (the number of UnbalancedTask diagnostics is zero iff the openers and closers
  are equal in number and every closer has an open task before it; a document whose
  first task keyword is a closer yields at least one such diagnostic even when the totals
  are equal).  The pass of the language server compares the two totals only: on the
  document \<open>end task\<close>, \<open>start task "A"\<close> it counts one opener and one closer and
  reports nothing, although the closer comes first.  The client-side pass reports both
  lines of the same document.
\<close>

theorem C1_server_ignores_order:
  \<open>length (filter isStartTask [''end task'', ''start task "A"'']) = 1
   \<and> length (filter isEndTask [''end task'', ''start task "A"'']) = 1
   \<and> isEndTask (lineAt [''end task'', ''start task "A"''] 0)
   \<and> filter isUnbalancedTask
        (validateTextDocument defaultSettings [''end task'', ''start task "A"'']) = []
   \<and> map (\<lambda>d. (emessage d, startLine (erange d)))
        (collectTaskBalanceDiagnostics [''end task'', ''start task "A"''] 1 200)
       = [(EndWithoutStart, 0), (StartWithoutEnd, 1)]\<close>
  by code_simp


text \<open>
  The client-side pass does what the claim says.  The stack holds as many lines more than
  were recorded as there are openers more than closers; so, with a budget of at least
  one, the pass emits nothing iff the openers and the closers are equal in number and no
  closer is without opener.
\<close>

lemma mrun_excess:
  "int (length (fst (mrun c xs))) - int (length (snd (mrun c xs)))
     = excess (map c xs) 0 (length xs)"
proof (induction xs rule: rev_induct)
  case Nil
  then show ?case by (simp add: mrun_def)
next
  case (snoc x xs)
  obtain S B where r: "mrun c xs = (S, B)" by (cases "mrun c xs")
  have e: "excess (map c xs @ [c x]) 0 (Suc (length xs))
             = excess (map c xs) 0 (length xs)
                 + (if c x = TOpen then 1 else if c x = TClose then - 1 else 0)"
  proof -
    have "(map c xs @ [c x]) ! length xs = c x" by (metis length_map nth_append_length)
    then show ?thesis
      using excess_last [of 0 "length xs" "map c xs @ [c x]"] by (simp add: excess_snoc)
  qed
  show ?case
    using snoc.IH r e by (cases "c x"; cases S) (simp_all add: mrun_snoc)
qed

lemma excess_total:
  "excess ks 0 (length ks)
     = int (length (filter (\<lambda>k. k = TOpen) ks)) - int (length (filter (\<lambda>k. k = TClose) ks))"
  by (simp add: excess_def countIn_def)

lemma client_balance_zero_iff:
  assumes "0 < b"
  shows "collectTaskBalanceDiagnostics doc sev b = [] \<longleftrightarrow>
           length (filter (\<lambda>k. k = TOpen) (map balanceTok doc))
             = length (filter (\<lambda>k. k = TClose) (map balanceTok doc))
           \<and> filter (unmatchedCloser (map balanceTok doc)) [0..<length doc] = []"
proof -
  let ?xs = "enumerate 0 doc"
  let ?r = "mrun (balanceTok \<circ> snd) ?xs"
  have ks: "map (balanceTok \<circ> snd) ?xs = map balanceTok doc"
    by (simp add: enumerate_eq_zip map_snd_zip flip: map_map)
  have bad: "length (snd ?r) = length (filter (unmatchedCloser (map balanceTok doc)) [0..<length doc])"
    using mrun_unmatched [of "balanceTok \<circ> snd" ?xs] by (simp add: ks)
  have diff: "int (length (fst ?r)) - int (length (snd ?r))
                = int (length (filter (\<lambda>k. k = TOpen) (map balanceTok doc)))
                    - int (length (filter (\<lambda>k. k = TClose) (map balanceTok doc)))"
    using mrun_excess [of "balanceTok \<circ> snd" ?xs] excess_total [of "map balanceTok doc"]
    by (simp add: ks)
  have "collectTaskBalanceDiagnostics doc sev b = [] \<longleftrightarrow> allBalance doc sev = []"
    using assms by (simp add: collectTaskBalance_take take_eq_Nil)
  also have "\<dots> \<longleftrightarrow> fst ?r = [] \<and> snd ?r = []"
    by (auto simp: allBalance_def case_prod_unfold)
  also have "\<dots> \<longleftrightarrow> length (filter (\<lambda>k. k = TOpen) (map balanceTok doc))
             = length (filter (\<lambda>k. k = TClose) (map balanceTok doc))
           \<and> filter (unmatchedCloser (map balanceTok doc)) [0..<length doc] = []"
    using bad diff by (auto simp flip: length_0_conv)
  finally show ?thesis .
qed

section \<open>One diagnostic for every unmatched task line\<close>

lemma enumerate_nth_map:
  "\<forall>i \<in> set is. i < length doc \<Longrightarrow>
     map ((!) (enumerate 0 doc)) is = map (\<lambda>i. (i, doc ! i)) is"
  by (induction "is") (simp_all add: nth_enumerate_eq)

lemma allBalance_unmatched:
  "allBalance doc sev
     = map (\<lambda>j. \<lparr> erange = lineRange j (doc ! j), emessage = EndWithoutStart, eseverity = sev \<rparr>)
         (filter (unmatchedCloser (map balanceTok doc)) [0..<length doc])
       @ map (\<lambda>i. \<lparr> erange = lineRange i (doc ! i), emessage = StartWithoutEnd, eseverity = sev \<rparr>)
           (rev (filter (unmatchedOpener (map balanceTok doc)) [0..<length doc]))"
proof -
  have ks: "map (balanceTok \<circ> snd) (enumerate 0 doc) = map balanceTok doc"
    by (simp add: enumerate_eq_zip map_snd_zip flip: map_map)
  have run: "mrun (balanceTok \<circ> snd) (enumerate 0 doc)
               = (rev (map (\<lambda>i. (i, doc ! i))
                    (filter (unmatchedOpener (map balanceTok doc)) [0..<length doc])),
                  map (\<lambda>i. (i, doc ! i))
                    (filter (unmatchedCloser (map balanceTok doc)) [0..<length doc]))"
    using mrun_unmatched [of "balanceTok \<circ> snd" "enumerate 0 doc"]
    by (simp only: ks length_enumerate enumerate_nth_map [OF filter_upt_bound])
  show ?thesis
    unfolding allBalance_def run
    by (simp add: closerDiag_def comp_def rev_map openerDiag_def lineAt_def)
qed

lemma count_line_diags:
  assumes "\<And>j. startLine (erange (D j)) = int j"
  shows "length (filter (\<lambda>d. startLine (erange d) = int i) (map D (filter P [0..<n])))
           = (if i < n \<and> P i then 1 else 0)"
  by (induction n) (auto simp: assms less_Suc_eq)

text \<open>
  Claim C2 (one UnbalancedTask diagnostic for every unmatched opener and for every closer
  without opener, each on its own line; two openers and one closer give exactly one
  diagnostic, on the second opener).  The last part fails: a closer closes the innermost
  open task, so of two openers followed by one closer the first stays open.  The
  client-side pass reports line 0; the pass of the language server reports the two
  totals in one diagnostic that is always on line 0.
\<close>

theorem C2_first_opener_reported:
  \<open>map (\<lambda>d. (emessage d, startLine (erange d)))
      (collectTaskBalanceDiagnostics [''start task "A"'', ''start task "B"'', ''end task''] 1 200)
     = [(StartWithoutEnd, 0)]
   \<and> map (\<lambda>d. (message d, startLine (drange d)))
      (filter isUnbalancedTask
         (validateTextDocument defaultSettings [''start task "A"'', ''start task "B"'', ''end task'']))
     = [(UnbalancedTasks 2 1, 0)]\<close>
  by code_simp

text \<open>
  Claim C2, amended.  When the budget is not smaller than the number of unmatched task
  lines, the client-side pass \<open>collectTaskBalanceDiagnostics\<close> emits, first, one
  "end task without start task" diagnostic for every closer without opener, in the order
  of the lines, and then one "start task without end task" diagnostic for every unmatched
  opener, the innermost first; each spans the whole of its own line, and every line
  carries one diagnostic if it is such a closer or opener and none otherwise.  A closer
  matches the innermost open task: of two openers followed by one closer it is the
  first opener that is reported.
\<close>

theorem C2_one_per_unmatched:
  assumes "int (length (filter (unmatchedCloser (map balanceTok doc)) [0..<length doc])
              + length (filter (unmatchedOpener (map balanceTok doc)) [0..<length doc])) \<le> budget"
  shows "collectTaskBalanceDiagnostics doc sev budget
     = map (\<lambda>j. \<lparr> erange = lineRange j (doc ! j), emessage = EndWithoutStart, eseverity = sev \<rparr>)
         (filter (unmatchedCloser (map balanceTok doc)) [0..<length doc])
       @ map (\<lambda>i. \<lparr> erange = lineRange i (doc ! i), emessage = StartWithoutEnd, eseverity = sev \<rparr>)
           (rev (filter (unmatchedOpener (map balanceTok doc)) [0..<length doc]))
     \<and> (\<forall>i. length (filter (\<lambda>d. startLine (erange d) = int i)
                       (collectTaskBalanceDiagnostics doc sev budget))
            = (if unmatchedCloser (map balanceTok doc) i \<or> unmatchedOpener (map balanceTok doc) i
               then 1 else 0))"
proof -
  let ?ks = "map balanceTok doc"
  let ?C = "\<lambda>j. \<lparr> erange = lineRange j (doc ! j), emessage = EndWithoutStart, eseverity = sev \<rparr>"
  let ?O = "\<lambda>i. \<lparr> erange = lineRange i (doc ! i), emessage = StartWithoutEnd, eseverity = sev \<rparr>"
  let ?cl = "filter (unmatchedCloser ?ks) [0..<length doc]"
  let ?op = "filter (unmatchedOpener ?ks) [0..<length doc]"
  have "length (allBalance doc sev) = length ?cl + length ?op"
    by (simp add: allBalance_unmatched)
  then have eq: "collectTaskBalanceDiagnostics doc sev budget = map ?C ?cl @ map ?O (rev ?op)"
    using assms by (simp add: collectTaskBalance_take allBalance_unmatched)
  have cnt: "length (filter (\<lambda>d. startLine (erange d) = int i) (map ?C ?cl @ map ?O (rev ?op)))
           = (if unmatchedCloser ?ks i \<or> unmatchedOpener ?ks i then 1 else 0)" for i
  proof -
    have c: "length (filter (\<lambda>d. startLine (erange d) = int i) (map ?C ?cl))
               = (if i < length doc \<and> unmatchedCloser ?ks i then 1 else 0)"
      by (rule count_line_diags) (simp add: lineRange_def makeRange_def)
    have "filter (\<lambda>d. startLine (erange d) = int i) (map ?O (rev ?op))
            = rev (filter (\<lambda>d. startLine (erange d) = int i) (map ?O ?op))"
      by (simp add: rev_map rev_filter)
    then have "length (filter (\<lambda>d. startLine (erange d) = int i) (map ?O (rev ?op)))
            = length (filter (\<lambda>d. startLine (erange d) = int i) (map ?O ?op))"
      by (simp only: length_rev)
    also have "\<dots> = (if i < length doc \<and> unmatchedOpener ?ks i then 1 else 0)"
      by (rule count_line_diags) (simp add: lineRange_def makeRange_def)
    finally have o: "length (filter (\<lambda>d. startLine (erange d) = int i) (map ?O (rev ?op)))
            = (if i < length doc \<and> unmatchedOpener ?ks i then 1 else 0)" .
    have excl: "\<not> (unmatchedCloser ?ks i \<and> unmatchedOpener ?ks i)"
      by (auto simp: unmatchedCloser_def unmatchedOpener_def)
    have bound: "unmatchedCloser ?ks i \<Longrightarrow> i < length doc" "unmatchedOpener ?ks i \<Longrightarrow> i < length doc"
      by (simp_all add: unmatchedCloser_def unmatchedOpener_def)
    have "length (filter (\<lambda>d. startLine (erange d) = int i) (map ?C ?cl @ map ?O (rev ?op)))
            = length (filter (\<lambda>d. startLine (erange d) = int i) (map ?C ?cl))
              + length (filter (\<lambda>d. startLine (erange d) = int i) (map ?O (rev ?op)))"
      by (simp only: filter_append length_append)
    then show ?thesis unfolding c o using excl bound by auto
  qed
  show ?thesis unfolding eq using cnt by blast
qed

text \<open>
  The theorem on two openers followed by one closer: no closer is without opener, the
  only unmatched opener is line 0, and the single diagnostic is on line 0.
\<close>

theorem C2_one_per_unmatched_witness:
  \<open>collectTaskBalanceDiagnostics [''start task "A"'', ''start task "B"'', ''end task''] 1 200
     = [\<lparr> erange = lineRange 0 ''start task "A"'', emessage = StartWithoutEnd, eseverity = 1 \<rparr>]\<close>
proof -
  let ?doc = \<open>[''start task "A"'', ''start task "B"'', ''end task'']\<close>
  have ks: "map balanceTok ?doc = [TOpen, TOpen, TClose]" by code_simp
  have cl: "filter (unmatchedCloser [TOpen, TOpen, TClose]) [0..<length ?doc] = []" by code_simp
  have op: "filter (unmatchedOpener [TOpen, TOpen, TClose]) [0..<length ?doc] = [0]" by code_simp
  have b: "int (length (filter (unmatchedCloser (map balanceTok ?doc)) [0..<length ?doc])
              + length (filter (unmatchedOpener (map balanceTok ?doc)) [0..<length ?doc])) \<le> 200"
    unfolding ks cl op by simp
  from C2_one_per_unmatched [OF b, of 1] show ?thesis
    unfolding ks cl op by simp
qed

section \<open>Formatting twice in the language server\<close>

text \<open>
  Claim C3 (formatting is idempotent).  The formatter of the language server appends the
  missing colon to a header, but decides whether the line opens a block on the text
  before the colon was appended.  So the first run leaves the body of a header that
  lacked its colon where it was, and the second run, which now sees the colon, indents
  it: on \<open>if x\<close>, \<open>say hi\<close> the two runs differ.  The client-side formatter normalizes
  the colon first and gives the same text both times.
\<close>

theorem C3_server_format_twice_differs:
  \<open>formatLines defaultSettings [''if x'', ''say hi''] = [''if x:'', ''say hi'']
   \<and> formatLines defaultSettings (formatLines defaultSettings [''if x'', ''say hi''])
       = [''if x:'', ''  say hi'']
   \<and> extFormat 2 [''if x'', ''say hi''] = [''if x:'', ''  say hi'']
   \<and> extFormat 2 (extFormat 2 [''if x'', ''say hi'']) = [''if x:'', ''  say hi'']\<close>
  by code_simp


text \<open>
  The client-side formatter is idempotent on every document.  It appends the missing
  colon first and then tests the patterns on the line so normalized; the text it writes
  is the indentation followed by that line without its leading white space, and
  normalizing this text again changes nothing.  So a second run sees the same lines,
  computes the same levels and produces no edit.
\<close>


lemma star_cls_end:
  "(\<exists>q \<in> set (star_cls k b s). snd q = []) \<longleftrightarrow> list_all (cc_ok k) s"
proof (induction s arbitrary: b)
  case Nil
  then show ?case by simp
next
  case (Cons c cs)
  then show ?case by auto
qed

lemma blank_match:
  "rmatch blankRe (b, s) \<noteq> [] \<longleftrightarrow> list_all is_space s"
proof -
  have "rmatch blankRe (b, s) \<noteq> [] \<longleftrightarrow> (\<exists>q \<in> set (star_cls sp b s). snd q = [])"
    by (auto simp: blankRe_def split: if_splits)
  then show ?thesis by (simp add: star_cls_end sp_def is_space_def list_all_iff)
qed

lemma blank_match_rest:
  "q \<in> set (rmatch blankRe p) \<Longrightarrow> snd q = []"
  by (auto simp: blankRe_def split: if_splits)

lemma trimEnd_Cons:
  "trimEnd (c # cs) = (if list_all is_space (c # cs) then [] else c # trimEnd cs)"
  by (auto simp: trimEnd_def dropWhile_append list_all_iff dropWhile_eq_Nil_conv split: if_splits)

lemma replace_blank: "replace_from blankRe rep b s = trimEnd s @ rep"
proof (induction s arbitrary: b)
  case Nil
  have "rmatch blankRe (b, []) \<noteq> []" by (simp add: blank_match)
  then obtain q qs where q: "rmatch blankRe (b, []) = q # qs" by (cases "rmatch blankRe (b, [])") auto
  then have "snd q = []" using blank_match_rest [of q "(b, [])"] by simp
  then show ?case using q by (simp add: trimEnd_def)
next
  case (Cons c cs)
  show ?case
  proof (cases "list_all is_space (c # cs)")
    case True
    then have "rmatch blankRe (b, c # cs) \<noteq> []" by (simp only: blank_match)
    then obtain q qs where q: "rmatch blankRe (b, c # cs) = q # qs"
      by (cases "rmatch blankRe (b, c # cs)") auto
    then have "snd q = []" using blank_match_rest [of q "(b, c # cs)"] by simp
    then show ?thesis using q True by (simp add: trimEnd_Cons del: rmatch.simps)
  next
    case False
    then have "rmatch blankRe (b, c # cs) = []" using blank_match [of b "c # cs"] by blast
    then show ?thesis using False Cons.IH by (simp add: trimEnd_Cons del: rmatch.simps)
  qed
qed

lemma hasColon_match:
  "rmatch hasColonRe (b, s) \<noteq> [] \<longleftrightarrow> (\<exists>w. s = CHR '':'' # w \<and> list_all is_space w)"
proof (cases s)
  case Nil
  then show ?thesis by (simp add: hasColonRe_def)
next
  case (Cons c cs)
  have "rmatch hasColonRe (b, c # cs) \<noteq> [] \<longleftrightarrow>
          c = CHR '':'' \<and> (\<exists>q \<in> set (star_cls sp (Some c) cs). snd q = [])"
    by (auto simp: hasColonRe_def split: if_splits)
  then show ?thesis using Cons by (simp add: star_cls_end sp_def is_space_def list_all_iff)
qed

lemma hasColon_positions:
  "list_ex (\<lambda>p. rmatch hasColonRe p \<noteq> []) (positions b s)
     \<longleftrightarrow> (\<exists>u w. s = u @ CHR '':'' # w \<and> list_all is_space w)"
proof (induction s arbitrary: b)
  case Nil
  then show ?case by (simp add: hasColon_match del: rmatch.simps)
next
  case (Cons c cs)
  have "(\<exists>u w. c # cs = u @ CHR '':'' # w \<and> list_all is_space w)
          \<longleftrightarrow> (\<exists>w. c # cs = CHR '':'' # w \<and> list_all is_space w)
              \<or> (\<exists>u w. cs = u @ CHR '':'' # w \<and> list_all is_space w)"
    (is "?L \<longleftrightarrow> ?A \<or> ?B")
  proof
    assume ?L
    then obtain u w where e: "c # cs = u @ CHR '':'' # w" and w: "list_all is_space w" by blast
    show "?A \<or> ?B"
    proof (cases u)
      case Nil
      then show ?thesis using e w by auto
    next
      case (Cons d u')
      then show ?thesis using e w by auto
    qed
  next
    assume "?A \<or> ?B"
    then show ?L
    proof
      assume ?A
      then show ?L by (metis append_Nil)
    next
      assume ?B
      then obtain u w where "cs = u @ CHR '':'' # w" "list_all is_space w" by blast
      then have "c # cs = (c # u) @ CHR '':'' # w" by simp
      then show ?L using \<open>list_all is_space w\<close> by blast
    qed
  qed
  then show ?case using Cons.IH [of "Some c"] by (simp add: hasColon_match del: rmatch.simps)
qed

lemma hasColon_iff:
  "test_anywhere hasColonRe s \<longleftrightarrow> (\<exists>u w. s = u @ CHR '':'' # w \<and> list_all is_space w)"
  by (simp add: test_anywhere_def hasColon_positions)

lemma hasColon_spaces:
  "list_all is_space ws \<Longrightarrow> test_anywhere hasColonRe (ws @ t) = test_anywhere hasColonRe t"
proof (induction ws)
  case Nil
  then show ?case by simp
next
  case (Cons c ws)
  then have c: "c \<noteq> CHR '':''" by (auto simp: is_space_def js_space_def)
  have "test_anywhere hasColonRe (c # ws @ t) = test_anywhere hasColonRe (ws @ t)"
    unfolding hasColon_iff
  proof
    assume "\<exists>u w. c # ws @ t = u @ CHR '':'' # w \<and> list_all is_space w"
    then obtain u w where e: "c # ws @ t = u @ CHR '':'' # w" and w: "list_all is_space w" by blast
    then obtain u' where "u = c # u'" using c by (cases u) auto
    then show "\<exists>u w. ws @ t = u @ CHR '':'' # w \<and> list_all is_space w" using e w by auto
  next
    assume "\<exists>u w. ws @ t = u @ CHR '':'' # w \<and> list_all is_space w"
    then obtain u w where "ws @ t = u @ CHR '':'' # w" "list_all is_space w" by blast
    then have "c # ws @ t = (c # u) @ CHR '':'' # w" by simp
    then show "\<exists>u w. c # ws @ t = u @ CHR '':'' # w \<and> list_all is_space w"
      using \<open>list_all is_space w\<close> by blast
  qed
  then show ?case using Cons by simp
qed


lemma replace_blank_first: "replace_first blankRe rep s = trimEnd s @ rep"
  by (simp add: replace_first_def replace_blank)

lemma takeWhile_dropWhile_space: "s = takeWhile is_space s @ trimStart s"
  by (simp add: trimStart_def)

lemma trimStart_spaces: "list_all is_space ws \<Longrightarrow> trimStart (ws @ s) = trimStart s"
  by (induction ws) (simp_all add: trimStart_def)

lemma trimStart_idem: "trimStart (trimStart s) = trimStart s"
  unfolding trimStart_def by (induction s) simp_all

lemma trim_trimStart: "trim (trimStart s) = trim s"
  by (simp add: trim_def trimStart_idem)

lemma hasColon_trimStart: "test_anywhere hasColonRe (trimStart s) = test_anywhere hasColonRe s"
proof -
  have "list_all is_space (takeWhile is_space s)"
    by (simp add: list_all_iff) (metis set_takeWhileD)
  from hasColon_spaces [OF this, of "trimStart s"] show ?thesis
    by (simp flip: takeWhile_dropWhile_space)
qed

lemma hasColon_snoc: "test_anywhere hasColonRe (u @ '':'')"
  unfolding hasColon_iff by (intro exI [of _ u] exI [of _ "[]"]) simp

lemma trimStart_snoc_colon: "\<exists>u. trimStart (s @ '':'') = u @ '':''"
proof (induction s)
  case Nil
  then show ?case by (simp add: trimStart_def is_space_def js_space_def)
next
  case (Cons c s)
  show ?case
  proof (cases "is_space c")
    case True
    then show ?thesis using Cons by (simp add: trimStart_def)
  next
    case False
    then have "trimStart ((c # s) @ '':'') = (c # s) @ '':''" by (simp add: trimStart_def)
    then show ?thesis by blast
  qed
qed

lemma normalize_stable:
  assumes "list_all is_space pad"
  shows "normalizeHeader (pad @ trimStart (normalizeHeader text))
           = pad @ trimStart (normalizeHeader text)"
proof (cases "test_anchored HEADER_MAY_REQUIRE_COLON_RE (trim text)
                \<and> \<not> test_anywhere hasColonRe text")
  case True
  then have n: "normalizeHeader text = trimEnd text @ '':''"
    by (simp add: normalizeHeader_def replace_blank_first)
  obtain u where u: "trimStart (trimEnd text @ '':'') = u @ '':''"
    using trimStart_snoc_colon by blast
  have t: "trimStart (normalizeHeader text) = u @ '':''" by (simp only: n u)
  have "test_anywhere hasColonRe (pad @ u @ '':'')"
    using hasColon_snoc [of "pad @ u"] by simp
  then show ?thesis unfolding t by (simp add: normalizeHeader_def)
next
  case False
  then have n: "normalizeHeader text = text" by (auto simp: normalizeHeader_def)
  have 1: "trim (pad @ trimStart text) = trim text"
    using assms by (simp add: trim_def trimStart_spaces trimStart_idem)
  have 2: "test_anywhere hasColonRe (pad @ trimStart text) = test_anywhere hasColonRe text"
    using assms by (simp add: hasColon_spaces hasColon_trimStart)
  show ?thesis using False unfolding n by (auto simp: normalizeHeader_def 1 2)
qed

lemma core_stable:
  assumes "list_all is_space pad"
  shows "trimStart (normalizeHeader (pad @ trimStart (normalizeHeader text)))
           = trimStart (normalizeHeader text)"
  using assms by (simp add: normalize_stable trimStart_spaces trimStart_idem)

lemma extFormatLoop_idem:
  "map snd (extFormatLoop n lv (map snd (extFormatLoop n lv doc)))
     = map snd (extFormatLoop n lv doc)"
proof (induction doc arbitrary: lv)
  case Nil
  then show ?case by simp
next
  case (Cons l rest)
  have sp: "list_all is_space (replicate k CHR '' '')" for k
    by (simp add: list_all_iff is_space_def js_space_def)
  show ?case
    using Cons.IH by (simp add: Let_def core_stable [OF sp])
qed

lemma extFormat_idempotent: "extFormat n (extFormat n doc) = extFormat n doc"
  by (simp add: extFormat_def extFormatLoop_idem)

lemma extFormat_no_edits: "provideDocumentFormattingEdits n (extFormat n doc) = []"
proof -
  let ?d = "extFormat n doc"
  have "map snd (extFormatLoop (max 2 (min 8 n)) 0 ?d) = ?d"
    using extFormat_idempotent [of n doc] by (simp add: extFormat_def)
  then show ?thesis
    by (auto simp: provideDocumentFormattingEdits_def Let_def zip_same_conv_map filter_empty_conv
        dest!: set_zip_rightD)
qed

section \<open>Indentation levels of the formatter\<close>

lemma preLevel_cases:
  "preLevel lv t = (if fmtDedents t then max 0 (lv - 1) else lv)"
  by (simp add: preLevel_def fmtDedents_def)

lemma postLevel_cases:
  "postLevel lv t = (if fmtOpens t then lv + 1 else lv)"
  by (simp add: postLevel_def fmtOpens_def)

lemma transitional_is_header: "fmtTransitional t \<Longrightarrow> isBlockHeader t"
  unfolding fmtTransitional_def isBlockHeader_def test_anchored_def fmtTransitionRe_def
    blockHeaderRe_def
  by (simp only: seqs.simps alts.simps rmatch.simps(3,4) map_append concat_append
      append_is_Nil_conv) blast

lemma ifOpener_is_header: "isIfOpener t \<Longrightarrow> isBlockHeader t"
  unfolding isIfOpener_def isBlockHeader_def test_anchored_def blockHeaderRe_def
  by (simp only: seqs.simps alts.simps rmatch.simps(3,4) map_append concat_append
      append_is_Nil_conv) blast

lemma formatLoop_length: "length (formatLoop indent lv doc) = length doc"
  by (induction doc arbitrary: lv) (simp_all add: Let_def)

lemma formatLoop_first:
  "doc \<noteq> [] \<Longrightarrow> fst (formatLoop indent lv doc ! 0) = preLevel lv (trim (doc ! 0))"
  by (cases doc) (simp_all add: Let_def)

lemma formatLoop_step:
  "Suc i < length doc \<Longrightarrow>
     fst (formatLoop indent lv doc ! Suc i)
       = preLevel (postLevel (fst (formatLoop indent lv doc ! i)) (trim (doc ! i)))
           (trim (doc ! Suc i))"
proof (induction doc arbitrary: lv i)
  case Nil
  then show ?case by simp
next
  case (Cons x xs)
  show ?case
  proof (cases i)
    case 0
    with Cons.prems have "xs \<noteq> []" by auto
    then show ?thesis using 0 by (simp add: Let_def formatLoop_first)
  next
    case (Suc k)
    with Cons.prems have "Suc k < length xs" by simp
    from Cons.IH [OF this] show ?thesis using Suc by (simp add: Let_def)
  qed
qed

lemma formatLoop_nonneg:
  "0 \<le> lv \<Longrightarrow> i < length doc \<Longrightarrow> 0 \<le> fst (formatLoop indent lv doc ! i)"
proof (induction doc arbitrary: lv i)
  case Nil
  then show ?case by simp
next
  case (Cons x xs)
  have a: "0 \<le> preLevel lv (trim x)" using Cons.prems(1) by (simp add: preLevel_cases)
  then have b: "0 \<le> postLevel (preLevel lv (trim x)) (trim x)" by (simp add: postLevel_cases)
  show ?case
  proof (cases i)
    case 0
    then show ?thesis using a by (simp add: Let_def)
  next
    case (Suc k)
    with Cons.prems have "k < length xs" by simp
    from Cons.IH [OF b this] show ?thesis using Suc by (simp add: Let_def)
  qed
qed

lemma formatLevels_nth:
  "i < length doc \<Longrightarrow> formatLevels st doc ! i = fst (formatLoop (indentSize st) 0 doc ! i)"
  by (simp add: formatLevels_def formatLoop_length)

lemma formatLevels_step:
  "Suc i < length doc \<Longrightarrow>
     formatLevels st doc ! Suc i
       = preLevel (postLevel (formatLevels st doc ! i) (trim (doc ! i))) (trim (doc ! Suc i))"
  by (simp add: formatLevels_nth formatLoop_step)

lemma formatLevels_nonneg: "i < length doc \<Longrightarrow> 0 \<le> formatLevels st doc ! i"
  by (simp add: formatLevels_nth formatLoop_nonneg)

text \<open>
  After a line that opens a block, the lines that neither open nor close anything stay
  one level above it.
\<close>

lemma formatLevels_body:
  assumes "i + k < length doc" and "fmtOpens (trim (doc ! i))"
    and "\<forall>m. i < m \<and> m \<le> i + k \<longrightarrow> \<not> fmtOpens (trim (doc ! m)) \<and> \<not> fmtDedents (trim (doc ! m))"
  shows "postLevel (formatLevels st doc ! (i + k)) (trim (doc ! (i + k)))
           = formatLevels st doc ! i + 1"
  using assms
proof (induction k)
  case 0
  then show ?case by (simp add: postLevel_cases)
next
  case (Suc k)
  then have IH: "postLevel (formatLevels st doc ! (i + k)) (trim (doc ! (i + k)))
           = formatLevels st doc ! i + 1"
    by simp
  have neutral: "\<not> fmtOpens (trim (doc ! Suc (i + k)))" "\<not> fmtDedents (trim (doc ! Suc (i + k)))"
    using Suc.prems(3) by simp_all
  have "formatLevels st doc ! Suc (i + k) = formatLevels st doc ! i + 1"
    using formatLevels_step [of "i + k" doc st] Suc.prems(1) IH neutral
    by (simp add: preLevel_cases)
  then show ?case using neutral by (simp add: postLevel_cases)
qed

text \<open>
  Claim C4 (the level is a non-negative integer and changes by at most one between
  adjacent lines; an opening header raises the level of the lines after it by one; a
  transitional header is written at the lowered level, equal to the level of its matching
  \<open>if\<close>-style opener, and its body one level higher).  The part on the matching opener
  fails: the formatter lowers the level by one at an \<open>else\<close> whatever was opened since the
  \<open>if\<close>.  In \<open>if a:\<close>, \<open>repeat 2 times:\<close>, \<open>say x\<close>, \<open>else:\<close> the only \<open>if\<close>-style opener
  is written at level 0 and the transitional header at level 1, by the formatter of the
  language server and by the client-side formatter alike.
\<close>

theorem C4_else_after_nested_block:
  "formatLevels defaultSettings [''if a:'', ''repeat 2 times:'', ''say x'', ''else:''] = [0, 1, 2, 1]
   \<and> isIfOpener (trim ''if a:'') \<and> \<not> isIfOpener (trim ''repeat 2 times:'')
   \<and> \<not> isIfOpener (trim ''say x'') \<and> fmtTransitional (trim ''else:'')
   \<and> extLevels 2 [''if a:'', ''repeat 2 times:'', ''say x'', ''else:''] = [0, 1, 2, 1]"
  by code_simp

text \<open>
  Claim C4, amended.  In the formatter of the language server every level is
  non-negative and two adjacent lines differ by at most one level.  When a line opens a
  block and the lines after it, up to some later line, neither open nor close anything,
  that later line is written one level above the opener unless it is itself a closing or
  transitional line; if it is a transitional header it is written at the level of the
  opener, and the line after it (unless closing or transitional) one level above.  In
  particular an \<open>elseif\<close>/\<open>else\<close> header right after its \<open>if\<close> header is written at the
  level of the \<open>if\<close>, and its body one level higher.
\<close>

theorem C4_levels:
  "(\<forall>i. i < length doc \<longrightarrow> 0 \<le> formatLevels st doc ! i)
   \<and> (\<forall>i. Suc i < length doc \<longrightarrow>
          \<bar>formatLevels st doc ! Suc i - formatLevels st doc ! i\<bar> \<le> 1)
   \<and> (\<forall>i j. i < j \<longrightarrow> j < length doc \<longrightarrow> fmtOpens (trim (doc ! i)) \<longrightarrow>
          (\<forall>m. i < m \<and> m < j \<longrightarrow>
               \<not> fmtOpens (trim (doc ! m)) \<and> \<not> fmtDedents (trim (doc ! m))) \<longrightarrow>
          (\<not> fmtDedents (trim (doc ! j)) \<longrightarrow>
             formatLevels st doc ! j = formatLevels st doc ! i + 1)
          \<and> (fmtTransitional (trim (doc ! j)) \<longrightarrow>
               formatLevels st doc ! j = formatLevels st doc ! i
               \<and> (Suc j < length doc \<longrightarrow> \<not> fmtDedents (trim (doc ! Suc j)) \<longrightarrow>
                    formatLevels st doc ! Suc j = formatLevels st doc ! i + 1)))"
proof (intro conjI allI impI)
  fix i assume "i < length doc"
  then show "0 \<le> formatLevels st doc ! i" by (rule formatLevels_nonneg)
next
  fix i assume s: "Suc i < length doc"
  then have "0 \<le> formatLevels st doc ! i" by (simp add: formatLevels_nonneg)
  then show "\<bar>formatLevels st doc ! Suc i - formatLevels st doc ! i\<bar> \<le> 1"
    using formatLevels_step [OF s, of st] by (auto simp: preLevel_cases postLevel_cases max_def)
next
  fix i j
  assume ij: "i < j" and j: "j < length doc" and op: "fmtOpens (trim (doc ! i))"
    and mid: "\<forall>m. i < m \<and> m < j \<longrightarrow>
               \<not> fmtOpens (trim (doc ! m)) \<and> \<not> fmtDedents (trim (doc ! m))"
  obtain k where k: "j = Suc (i + k)" using ij less_iff_Suc_add by auto
  have run: "postLevel (formatLevels st doc ! (i + k)) (trim (doc ! (i + k)))
               = formatLevels st doc ! i + 1"
    using formatLevels_body [of i k doc st] j op mid k by simp
  have step: "formatLevels st doc ! j = preLevel (formatLevels st doc ! i + 1) (trim (doc ! j))"
    using formatLevels_step [of "i + k" doc st] j k run by simp
  have nn: "0 \<le> formatLevels st doc ! i" using ij j by (simp add: formatLevels_nonneg)
  {
    assume "\<not> fmtDedents (trim (doc ! j))"
    then show "formatLevels st doc ! j = formatLevels st doc ! i + 1"
      using step by (simp add: preLevel_cases)
  }
  {
    assume tr: "fmtTransitional (trim (doc ! j))"
    then have "fmtDedents (trim (doc ! j))" by (simp add: fmtDedents_def fmtTransitional_def)
    then show here: "formatLevels st doc ! j = formatLevels st doc ! i"
      using step nn by (simp add: preLevel_cases)
    assume sj: "Suc j < length doc" and nd: "\<not> fmtDedents (trim (doc ! Suc j))"
    have "fmtOpens (trim (doc ! j))"
      using transitional_is_header [OF tr] by (simp add: fmtOpens_def)
    then show "formatLevels st doc ! Suc j = formatLevels st doc ! i + 1"
      using formatLevels_step [OF sj, of st] nd here
      by (simp add: preLevel_cases postLevel_cases)
  }
qed

text \<open>The theorem on \<open>if a:\<close>, \<open>else:\<close>, \<open>say y\<close>: the levels are 0, 0 and 1.\<close>

theorem C4_levels_witness:
  "0 \<le> formatLevels defaultSettings [''if a:'', ''else:'', ''say y''] ! 0
   \<and> formatLevels defaultSettings [''if a:'', ''else:'', ''say y''] ! 1
       = formatLevels defaultSettings [''if a:'', ''else:'', ''say y''] ! 0
   \<and> formatLevels defaultSettings [''if a:'', ''else:'', ''say y''] ! 2
       = formatLevels defaultSettings [''if a:'', ''else:'', ''say y''] ! 0 + 1
   \<and> formatLevels defaultSettings [''if a:'', ''else:'', ''say y''] = [0, 0, 1]"
proof -
  let ?doc = "[''if a:'', ''else:'', ''say y'']"
  let ?L = "formatLevels defaultSettings ?doc"
  note th = C4_levels [of ?doc defaultSettings]
  have op: "fmtOpens (trim (?doc ! 0))" by code_simp
  have tr: "fmtTransitional (trim (?doc ! 1))" by code_simp
  have nd: "\<not> fmtDedents (trim (?doc ! Suc 1))" by code_simp
  have a: "0 \<le> ?L ! 0" using th by simp
  from th have "(0::nat) < 1 \<longrightarrow> 1 < length ?doc \<longrightarrow> fmtOpens (trim (?doc ! 0)) \<longrightarrow>
          (\<forall>m. 0 < m \<and> m < 1 \<longrightarrow>
               \<not> fmtOpens (trim (?doc ! m)) \<and> \<not> fmtDedents (trim (?doc ! m))) \<longrightarrow>
          (\<not> fmtDedents (trim (?doc ! 1)) \<longrightarrow> ?L ! 1 = ?L ! 0 + 1)
          \<and> (fmtTransitional (trim (?doc ! 1)) \<longrightarrow>
               ?L ! 1 = ?L ! 0
               \<and> (Suc 1 < length ?doc \<longrightarrow> \<not> fmtDedents (trim (?doc ! Suc 1)) \<longrightarrow>
                    ?L ! Suc 1 = ?L ! 0 + 1))"
    by blast
  with op tr nd have b: "?L ! 1 = ?L ! 0" and c: "?L ! Suc 1 = ?L ! 0 + 1" by auto
  have d: "?L = [0, 0, 1]" by code_simp
  from a b c d show ?thesis by (simp add: numeral_2_eq_2)
qed

text \<open>
  The client-side formatter computes its levels in the same way and has the same
  properties: the levels are non-negative, adjacent lines differ by at most one level, the
  lines after an opener stay one level above it while nothing opens or closes, and a
  transitional header in that stretch is written at the level of the opener, with the
  line after it one level higher.
\<close>

lemma set_rmatch_Seq:
  "set (rmatch (Seq a b) p) = (\<Union>m \<in> set (rmatch a p). set (rmatch b m))"
  by simp

lemma set_rmatch_Alt:
  "set (rmatch (Alt a b) p) = set (rmatch a p) \<union> set (rmatch b p)"
  by simp

lemma test_anchored_set: "test_anchored r s \<longleftrightarrow> set (rmatch r (None, s)) \<noteq> {}"
  by (simp add: test_anchored_def)

lemma test_anchored_ex: "test_anchored r s \<longleftrightarrow> (\<exists>e. e \<in> set (rmatch r (None, s)))"
  unfolding test_anchored_def by (cases "rmatch r (None, s)") auto

lemma extTransitional_dedents: "extTransitional t \<Longrightarrow> extDedents t"
  unfolding extTransitional_def extDedents_def test_anchored_set extTransitionRe_def
    DECREASE_INDENT_RE_def
  by (simp only: seqs.simps alts.simps set_rmatch_Seq set_rmatch_Alt) blast

lemma star_cls_zero: "(b, s) \<in> set (star_cls k b s)"
  by (cases s) auto

lemma rmatch_liti_append:
  "set (rmatch (liti (u @ v)) p) = (\<Union>m \<in> set (rmatch (liti u) p). set (rmatch (liti v) m))"
  by (induction u arbitrary: p) (auto split: list.splits if_splits)

lemma rmatch_liti_last:
  "m \<in> set (rmatch (liti w) p) \<Longrightarrow> w \<noteq> [] \<Longrightarrow> fst m = Some (last w) \<or> fst m = Some (upcase (last w))"
proof (induction w arbitrary: p)
  case Nil
  then show ?case by simp
next
  case (Cons c w)
  show ?case
  proof (cases "w = []")
    case True
    then show ?thesis using Cons.prems by (auto split: list.splits if_splits)
  next
    case False
    from Cons.prems(1) obtain p' where "m \<in> set (rmatch (liti w) p')"
      by (auto split: list.splits if_splits)
    from Cons.IH [OF this False] show ?thesis using False by simp
  qed
qed

lemma alts_member:
  "a \<in> set L \<Longrightarrow> set (rmatch a p) \<subseteq> set (rmatch (alts L) p)"
  by (induction L rule: alts.induct) auto

lemma else_colon:
  assumes "q \<in> set (rmatch (liti ''else:'') p)"
  shows "q \<in> set (rmatch (seqs [liti ''else'', Wb, Star dot, lit '':'']) p)"
proof -
  have "liti ''else:'' = liti (''else'' @ '':'')" by simp
  with assms have "q \<in> (\<Union>m \<in> set (rmatch (liti ''else'') p). set (rmatch (liti '':'') m))"
    by (simp only: rmatch_liti_append)
  then obtain m where m: "m \<in> set (rmatch (liti ''else'') p)"
    and q: "q \<in> set (rmatch (liti '':'') m)"
    by blast
  have up: "upcase CHR '':'' = CHR '':''" by code_simp
  from q have "\<exists>rest. snd m = CHR '':'' # rest \<and> q = (Some CHR '':'', rest)"
    by (cases "snd m") (auto simp: up split: if_splits)
  then obtain rest where sm: "snd m = CHR '':'' # rest" and qq: "q = (Some CHR '':'', rest)"
    by blast
  have upe: "upcase CHR ''e'' = CHR ''E''" by code_simp
  from rmatch_liti_last [OF m] have "fst m = Some CHR ''e'' \<or> fst m = Some CHR ''E''"
    by (simp add: upe)
  then have w: "is_word_at (fst m)" by (auto simp: js_word_def)
  have nw: "\<not> is_word_at (next_char (snd m))" by (simp add: sm js_word_def)
  have wb: "m \<in> set (rmatch Wb m)" using w nw by simp
  have st: "m \<in> set (rmatch (Star dot) m)" using star_cls_zero [of "fst m" "snd m" dot] by simp
  have l: "q \<in> set (rmatch (lit '':'') m)" using sm qq by simp
  show ?thesis using m wb st l by (simp only: seqs.simps set_rmatch_Seq) blast
qed

lemma seq_member:
  "m \<in> set (rmatch a p) \<Longrightarrow> q \<in> set (rmatch b m) \<Longrightarrow> q \<in> set (rmatch (Seq a b) p)"
  by auto

lemma seq_member_cases:
  assumes "q \<in> set (rmatch (Seq a b) p)"
  obtains m where "m \<in> set (rmatch a p)" "q \<in> set (rmatch b m)"
  using assms by auto

lemma extTransitional_opens: "extTransitional t \<Longrightarrow> extOpens t"
proof -
  let ?K = "[liti ''when'', liti ''on'', liti ''at'', liti ''if'', liti ''elseif'',
                  liti ''else'', liti ''repeat'', liti ''while'', liti ''for'', liti ''parallel'',
                  liti ''context'', seqs [liti ''with'', plus sp, liti ''timeout''],
                  liti ''every'', seqs [liti ''sync'', plus sp, liti ''when'']]"
  let ?tail = "Seq Wb (Seq (Star dot) (lit '':''))"
  let ?A = "[Seq (alts ?K) ?tail,
      seqs [alts [seqs [liti ''detached'', plus sp, liti ''run''],
                  seqs [liti ''await'', plus sp, liti ''run''], liti ''run''],
            Wb, Star dot, lit '':''],
      seqs [liti ''template'', plus sp, liti ''task'', Wb, Star dot, lit '':''],
      seqs [liti ''start'', plus sp, liti ''task'', Wb, Star dot,
            Opt (seqs [lit '':'', Star sp]), Eoi],
      liti ''fallback:'']"
  let ?end = "Seq (Star sp) Eoi"
  have inc: "INCREASE_INDENT_RE = Seq (Star sp) (Seq (alts ?A) ?end)"
    unfolding INCREASE_INDENT_RE_def by (simp only: seqs.simps)
  have tr: "extTransitionRe
      = Seq (Star sp) (Seq (Alt (Seq (liti ''elseif'') ?tail) (liti ''else:'')) ?end)"
    unfolding extTransitionRe_def by (simp only: seqs.simps alts.simps)
  assume "extTransitional t"
  then obtain e where "e \<in> set (rmatch extTransitionRe (None, t))"
    unfolding extTransitional_def test_anchored_ex by blast
  then obtain a where a: "a \<in> set (rmatch (Star sp) (None, t))"
    and e1: "e \<in> set (rmatch (Seq (Alt (Seq (liti ''elseif'') ?tail) (liti ''else:'')) ?end) a)"
    unfolding tr by (rule seq_member_cases)
  from e1 obtain q where q: "q \<in> set (rmatch (Alt (Seq (liti ''elseif'') ?tail) (liti ''else:'')) a)"
    and e: "e \<in> set (rmatch ?end q)"
    by (rule seq_member_cases)
  from q have "q \<in> set (rmatch (Seq (liti ''elseif'') ?tail) a) \<or> q \<in> set (rmatch (liti ''else:'') a)"
    by (simp only: set_rmatch_Alt Un_iff)
  then have "q \<in> set (rmatch (Seq (liti ''elseif'') ?tail) a)
               \<or> q \<in> set (rmatch (Seq (liti ''else'') ?tail) a)"
    using else_colon [of q a] by (simp only: seqs.simps) blast
  then have "q \<in> set (rmatch (Seq (alts ?K) ?tail) a)"
  proof
    assume "q \<in> set (rmatch (Seq (liti ''elseif'') ?tail) a)"
    then obtain m where m: "m \<in> set (rmatch (liti ''elseif'') a)" and r: "q \<in> set (rmatch ?tail m)"
      by (rule seq_member_cases)
    have "liti ''elseif'' \<in> set ?K" by (simp only: list.set insert_iff simp_thms)
    from alts_member [OF this] m have "m \<in> set (rmatch (alts ?K) a)" by blast
    then show ?thesis using r by (rule seq_member)
  next
    assume "q \<in> set (rmatch (Seq (liti ''else'') ?tail) a)"
    then obtain m where m: "m \<in> set (rmatch (liti ''else'') a)" and r: "q \<in> set (rmatch ?tail m)"
      by (rule seq_member_cases)
    have "liti ''else'' \<in> set ?K" by (simp only: list.set insert_iff simp_thms)
    from alts_member [OF this] m have "m \<in> set (rmatch (alts ?K) a)" by blast
    then show ?thesis using r by (rule seq_member)
  qed
  moreover have "Seq (alts ?K) ?tail \<in> set ?A" by (simp only: list.set insert_iff simp_thms)
  ultimately have "q \<in> set (rmatch (alts ?A) a)" using alts_member by blast
  then have "e \<in> set (rmatch (Seq (alts ?A) ?end) a)" using e by (rule seq_member)
  with a have "e \<in> set (rmatch INCREASE_INDENT_RE (None, t))"
    unfolding inc by (rule seq_member)
  then show ?thesis unfolding extOpens_def test_anchored_ex by blast
qed


lemma extFormatLoop_Cons:
  "extFormatLoop n lv (l # rest)
     = (extPre lv (extCore l), replicate (nat (extPre lv (extCore l) * n)) CHR '' '' @ extCore l)
         # extFormatLoop n (extPost (extPre lv (extCore l)) (extCore l)) rest"
  by (simp add: Let_def extPre_def extPost_def extCore_def extDedents_def extOpens_def)

lemma extFormatLoop_length: "length (extFormatLoop n lv doc) = length doc"
  by (induction doc arbitrary: lv) (simp_all add: Let_def)

lemma extFormatLoop_first:
  "doc \<noteq> [] \<Longrightarrow> fst (extFormatLoop n lv doc ! 0) = extPre lv (extCore (doc ! 0))"
  by (cases doc) (simp_all add: extFormatLoop_Cons del: extFormatLoop.simps)

lemma extFormatLoop_step:
  "Suc i < length doc \<Longrightarrow>
     fst (extFormatLoop n lv doc ! Suc i)
       = extPre (extPost (fst (extFormatLoop n lv doc ! i)) (extCore (doc ! i)))
           (extCore (doc ! Suc i))"
proof (induction doc arbitrary: lv i)
  case Nil
  then show ?case by simp
next
  case (Cons x xs)
  show ?case
  proof (cases i)
    case 0
    with Cons.prems have "xs \<noteq> []" by auto
    then show ?thesis
      using 0 by (simp add: extFormatLoop_Cons extFormatLoop_first del: extFormatLoop.simps)
  next
    case (Suc k)
    with Cons.prems have "Suc k < length xs" by simp
    from Cons.IH [OF this] show ?thesis
      using Suc by (simp add: extFormatLoop_Cons del: extFormatLoop.simps)
  qed
qed

lemma extFormatLoop_nonneg:
  "0 \<le> lv \<Longrightarrow> i < length doc \<Longrightarrow> 0 \<le> fst (extFormatLoop n lv doc ! i)"
proof (induction doc arbitrary: lv i)
  case Nil
  then show ?case by simp
next
  case (Cons x xs)
  have a: "0 \<le> extPre lv (extCore x)" using Cons.prems(1) by (simp add: extPre_def)
  then have b: "0 \<le> extPost (extPre lv (extCore x)) (extCore x)" by (simp add: extPost_def)
  show ?case
  proof (cases i)
    case 0
    then show ?thesis using a by (simp add: extFormatLoop_Cons del: extFormatLoop.simps)
  next
    case (Suc k)
    with Cons.prems have "k < length xs" by simp
    from Cons.IH [OF b this] show ?thesis
      using Suc by (simp add: extFormatLoop_Cons del: extFormatLoop.simps)
  qed
qed

lemma extLevels_nth:
  "i < length doc \<Longrightarrow> extLevels n doc ! i = fst (extFormatLoop (max 2 (min 8 n)) 0 doc ! i)"
  by (simp add: extLevels_def extFormatLoop_length)

lemma extLevels_step:
  "Suc i < length doc \<Longrightarrow>
     extLevels n doc ! Suc i
       = extPre (extPost (extLevels n doc ! i) (extCore (doc ! i))) (extCore (doc ! Suc i))"
  by (simp add: extLevels_nth extFormatLoop_step)

lemma extLevels_nonneg: "i < length doc \<Longrightarrow> 0 \<le> extLevels n doc ! i"
  by (simp add: extLevels_nth extFormatLoop_nonneg)

lemma extLevels_body:
  assumes "i + k < length doc" and "extOpens (extCore (doc ! i))"
    and "\<forall>m. i < m \<and> m \<le> i + k \<longrightarrow>
           \<not> extOpens (extCore (doc ! m)) \<and> \<not> extDedents (extCore (doc ! m))"
  shows "extPost (extLevels n doc ! (i + k)) (extCore (doc ! (i + k))) = extLevels n doc ! i + 1"
  using assms
proof (induction k)
  case 0
  then show ?case by (simp add: extPost_def)
next
  case (Suc k)
  then have IH: "extPost (extLevels n doc ! (i + k)) (extCore (doc ! (i + k)))
           = extLevels n doc ! i + 1"
    by simp
  have neutral: "\<not> extOpens (extCore (doc ! Suc (i + k)))"
    "\<not> extDedents (extCore (doc ! Suc (i + k)))"
    using Suc.prems(3) by simp_all
  have "extLevels n doc ! Suc (i + k) = extLevels n doc ! i + 1"
    using extLevels_step [of "i + k" doc n] Suc.prems(1) IH neutral by (simp add: extPre_def)
  then show ?case using neutral by (simp add: extPost_def)
qed

lemma extLevels_props:
  "(\<forall>i. i < length doc \<longrightarrow> 0 \<le> extLevels n doc ! i)
   \<and> (\<forall>i. Suc i < length doc \<longrightarrow> \<bar>extLevels n doc ! Suc i - extLevels n doc ! i\<bar> \<le> 1)
   \<and> (\<forall>i j. i < j \<longrightarrow> j < length doc \<longrightarrow> extOpens (extCore (doc ! i)) \<longrightarrow>
          (\<forall>m. i < m \<and> m < j \<longrightarrow>
               \<not> extOpens (extCore (doc ! m)) \<and> \<not> extDedents (extCore (doc ! m))) \<longrightarrow>
          (\<not> extDedents (extCore (doc ! j)) \<longrightarrow> extLevels n doc ! j = extLevels n doc ! i + 1)
          \<and> (extTransitional (extCore (doc ! j)) \<longrightarrow>
               extLevels n doc ! j = extLevels n doc ! i
               \<and> (Suc j < length doc \<longrightarrow> \<not> extDedents (extCore (doc ! Suc j)) \<longrightarrow>
                    extLevels n doc ! Suc j = extLevels n doc ! i + 1)))"
proof (intro conjI allI impI)
  fix i assume "i < length doc"
  then show "0 \<le> extLevels n doc ! i" by (rule extLevels_nonneg)
next
  fix i assume s: "Suc i < length doc"
  then have "0 \<le> extLevels n doc ! i" by (simp add: extLevels_nonneg)
  then show "\<bar>extLevels n doc ! Suc i - extLevels n doc ! i\<bar> \<le> 1"
    using extLevels_step [OF s, of n] by (auto simp: extPre_def extPost_def)
next
  fix i j
  assume ij: "i < j" and j: "j < length doc" and op: "extOpens (extCore (doc ! i))"
    and mid: "\<forall>m. i < m \<and> m < j \<longrightarrow>
               \<not> extOpens (extCore (doc ! m)) \<and> \<not> extDedents (extCore (doc ! m))"
  obtain k where k: "j = Suc (i + k)" using ij less_iff_Suc_add by auto
  have run: "extPost (extLevels n doc ! (i + k)) (extCore (doc ! (i + k)))
               = extLevels n doc ! i + 1"
    using extLevels_body [of i k doc n] j op mid k by simp
  have step: "extLevels n doc ! j = extPre (extLevels n doc ! i + 1) (extCore (doc ! j))"
    using extLevels_step [of "i + k" doc n] j k run by simp
  have nn: "0 \<le> extLevels n doc ! i" using ij j by (simp add: extLevels_nonneg)
  {
    assume "\<not> extDedents (extCore (doc ! j))"
    then show "extLevels n doc ! j = extLevels n doc ! i + 1"
      using step by (simp add: extPre_def)
  }
  {
    assume tr: "extTransitional (extCore (doc ! j))"
    then have "extDedents (extCore (doc ! j))" by (rule extTransitional_dedents)
    then show here: "extLevels n doc ! j = extLevels n doc ! i"
      using step nn by (simp add: extPre_def)
    assume sj: "Suc j < length doc" and nd: "\<not> extDedents (extCore (doc ! Suc j))"
    have "extOpens (extCore (doc ! j))" using tr by (rule extTransitional_opens)
    then show "extLevels n doc ! Suc j = extLevels n doc ! i + 1"
      using extLevels_step [OF sj, of n] nd here by (simp add: extPre_def extPost_def)
  }
qed

lemma extLevels_example:
  "extLevels 2 [''if a'', ''say x'', ''else'', ''say y''] = [0, 1, 0, 1]
   \<and> extOpens (extCore ''if a'') \<and> extTransitional (extCore ''else'')
   \<and> extFormat 2 [''if a'', ''say x'', ''else'', ''say y'']
       = [''if a:'', ''  say x'', ''else:'', ''  say y'']"
  by code_simp

section \<open>Outline symbols and folding ranges\<close>

text \<open>
  Claim C5 (the range of every outline symbol of a task is the range of some folding
  range of the same document, also for nested and for unterminated tasks).  The outline
  keeps a stack of open tasks and closes the open ones at the end of the document; the
  task folds keep the line of the last opener only and are never closed at the end.  For
  two nested tasks the outer symbol spans lines 0 to 3 and the only fold is 1 to 2; for an
  unterminated task the symbol spans lines 0 to 1 and there is no fold at all.
\<close>

theorem C5_symbol_without_fold:
  \<open>map (\<lambda>s. (name s, startLine (srange s), endLine (srange s)))
      (onDocumentSymbol (Some [''start task "A"'', ''start task "B"'', ''end task'', ''end task'']))
     = [(''B'', 1, 2), (''A'', 0, 3)]
   \<and> map (\<lambda>f. (foldStart f, foldEnd f))
      (onFoldingRanges (Some [''start task "A"'', ''start task "B"'', ''end task'', ''end task'']))
     = [(1, 2)]
   \<and> map (\<lambda>s. (name s, startLine (srange s), endLine (srange s)))
      (onDocumentSymbol (Some [''start task "A"'', ''say "hi"'']))
     = [(''A'', 0, 1)]
   \<and> onFoldingRanges (Some [''start task "A"'', ''say "hi"'']) = []\<close>
  by code_simp

section \<open>Missing colons in the language server\<close>

text \<open>
  Claim C6 (every opening or transitional header whose trimmed text does not end with a
  colon gets exactly one MissingColon diagnostic that spans the line; a missing colon
  causes no UnbalancedTask diagnostic).  The check of the language server misses the
  \<open>at time\<close> header.  The server lists \<open>at time\<close> among its triggers and blocks
  (\<open>CONTROL\<close>), reads it as the leading verb of the line, and completes it as a header
  that ends with a colon and opens a body; but \<open>endsWithColonCandidate\<close> has no
  alternative for it, so the header \<open>at time "07:00"\<close> without its colon gets no
  diagnostic.  The client-side check reports the same line, from column 0 to its end.
\<close>

theorem C6_server_misses_at_time:
  \<open>''at time'' \<in> set CONTROL
   \<and> firstVerb ''at time "07:00"'' = Some ''at time''
   \<and> map (\<lambda>c. (label c, insertText c)) atTimeItems
       = [(''at time "HH:MM":'', Some (''at time "${1:08:00}":'' @ [CHR 0x0A, CHR 0x09] @ ''$0''))]
   \<and> \<not> endsWith (trim ''at time "07:00"'') '':''
   \<and> \<not> endsWithColonCandidate ''at time "07:00"''
   \<and> validateTextDocument defaultSettings [''at time "07:00"'', ''  say "hi"''] = []
   \<and> map (\<lambda>d. (emessage d, erange d))
         (collectMissingColonDiagnostics [''at time "07:00"'', ''  say "hi"''] 3 200)
       = [(MissingTrailingColon,
           \<lparr> startLine = 0, startCharacter = 0, endLine = 0, endCharacter = 15 \<rparr>)]\<close>
  by code_simp

lemma candidate_not_task:
  assumes "endsWithColonCandidate l"
  shows "\<not> isStartTask l \<and> \<not> isEndTask l"
proof -
  from assms have "test_anchored colonCandidateRe (trim l)"
    by (simp add: endsWithColonCandidate_def Let_def split: if_splits)
  then obtain k where k: "k \<in> set headerKeywords" "prefix k (trim l)"
    using colonCandidate_keyword by blast
  then have "prefix k (trimStart l)" by (simp add: prefix_trim)
  with k(1) show ?thesis
    using keyword_not_task isStartTask_prefix isEndTask_prefix by blast
qed

lemma header_not_task:
  assumes "isBlockHeader (trim l)"
  shows "\<not> isStartTask l \<and> \<not> isEndTask l"
proof -
  from assms obtain k where k: "k \<in> set headerKeywords" "prefix k (trim l)"
    using blockHeader_keyword by blast
  then have "prefix k (trimStart l)" by (simp add: prefix_trim)
  with k(1) show ?thesis
    using keyword_not_task isStartTask_prefix isEndTask_prefix by blast
qed

lemma filter_update_irrelevant:
  "i < length xs \<Longrightarrow> \<not> P (xs ! i) \<Longrightarrow> \<not> P y \<Longrightarrow> filter P (xs[i := y]) = filter P xs"
proof (induction xs arbitrary: i)
  case Nil
  then show ?case by simp
next
  case (Cons x xs)
  then show ?case by (cases i) auto
qed

lemma missingColonAt_line:
  "d \<in> set (missingColonAt st (j, text)) \<Longrightarrow> isMissingColon d \<and> startLine (drange d) = int j"
  by (auto simp: missingColonAt_def makeRange_def isMissingColon_def split: if_splits)

lemma missingColonAt_kind:
  "d \<in> set (missingColonAt st x) \<Longrightarrow> \<not> isUnbalancedTask d"
  by (cases x) (auto simp: missingColonAt_def isUnbalancedTask_def split: if_splits)

lemma filter_missingColon_lines:
  "filter (\<lambda>d. isMissingColon d \<and> startLine (drange d) = int i)
     (concat (map (missingColonAt st) (enumerate n xs)))
   = (if n \<le> i \<and> i < n + length xs then missingColonAt st (i, xs ! (i - n)) else [])"
proof (induction xs arbitrary: n)
  case Nil
  then show ?case by auto
next
  case (Cons x xs)
  have here: "filter (\<lambda>d. isMissingColon d \<and> startLine (drange d) = int i) (missingColonAt st (n, x))
      = (if i = n then missingColonAt st (n, x) else [])"
    by (auto simp: missingColonAt_def makeRange_def isMissingColon_def)
  show ?case
    using Cons.IH [of "Suc n"] here
    by (auto simp: nth_Cons' Suc_diff_le)
qed

lemma unbalanced_not_missing:
  "filter (\<lambda>d. isMissingColon d \<and> Q d) (unbalancedTaskPass st doc) = []"
  by (simp add: unbalancedTaskPass_def Let_def isMissingColon_def)

lemma unknownVerbAt_kind:
  "d \<in> set (unknownVerbAt st x) \<Longrightarrow> \<not> isMissingColon d \<and> \<not> isUnbalancedTask d"
  by (cases x)
    (auto simp: unknownVerbAt_def Let_def isMissingColon_def isUnbalancedTask_def
      split: if_splits option.splits)

lemma unknownVerb_not_missing:
  "filter (\<lambda>d. isMissingColon d \<and> Q d) (unknownVerbPass st doc) = []"
  by (auto simp: unknownVerbPass_def filter_empty_conv dest: unknownVerbAt_kind)

lemma unknownVerb_not_unbalanced:
  "filter isUnbalancedTask (unknownVerbPass st doc) = []"
  by (auto simp: unknownVerbPass_def filter_empty_conv dest: unknownVerbAt_kind)

lemma missingColon_not_unbalanced:
  "filter isUnbalancedTask (missingColonPass st doc) = []"
  by (auto simp: missingColonPass_def filter_empty_conv dest: missingColonAt_kind)

lemma unbalanced_of_validate:
  "filter isUnbalancedTask (validateTextDocument st doc) = unbalancedTaskPass st doc"
proof -
  have "filter isUnbalancedTask (unbalancedTaskPass st doc) = unbalancedTaskPass st doc"
    by (simp add: unbalancedTaskPass_def Let_def isUnbalancedTask_def)
  then show ?thesis
    by (simp add: validateTextDocument_def unknownVerb_not_unbalanced missingColon_not_unbalanced)
qed

text \<open>
  The headers the check of the language server recognizes (\<open>endsWithColonCandidate\<close>:
  \<open>when\<close>, \<open>on\<close> and one word, \<open>if\<close>, \<open>elseif\<close>, \<open>else\<close>, \<open>repeat\<close>, \<open>while\<close>, \<open>for\<close>,
  \<open>parallel\<close>, \<open>template task\<close>).  For every such line whose trimmed text does not end
  with a colon, and with the check enabled, the diagnostics of the language server hold
  exactly one MissingColon diagnostic on that line, from column 0 to the length of the
  line.  Such a line is neither a task opener nor a task closer, and writing the header
  with its colon in its place leaves the UnbalancedTask diagnostics as they were: the
  missing colon causes none.
\<close>

lemma missingColon_recognized_header:
  assumes "missingColonSeverity st \<noteq> Off" and "i < length doc"
    and "endsWithColonCandidate (doc ! i)" and "\<not> endsWith (trim (doc ! i)) '':''"
  shows "filter (\<lambda>d. isMissingColon d \<and> startLine (drange d) = int i) (validateTextDocument st doc)
           = [\<lparr> severity = toSeverity (missingColonSeverity st), message = MissingColon,
                 drange = \<lparr> startLine = int i, startCharacter = 0, endLine = int i,
                            endCharacter = int (length (doc ! i)) \<rparr> \<rparr>]
         \<and> \<not> isStartTask (doc ! i) \<and> \<not> isEndTask (doc ! i)
         \<and> (isBlockHeader (trim l') \<longrightarrow>
              map message (filter isUnbalancedTask (validateTextDocument st (doc[i := l'])))
              = map message (filter isUnbalancedTask (validateTextDocument st doc)))"
proof (intro conjI impI)
  have "filter (\<lambda>d. isMissingColon d \<and> startLine (drange d) = int i) (missingColonPass st doc)
          = missingColonAt st (i, doc ! i)"
    using assms(1,2) filter_missingColon_lines [of i st 0 doc]
    by (simp add: missingColonPass_def)
  then show "filter (\<lambda>d. isMissingColon d \<and> startLine (drange d) = int i) (validateTextDocument st doc)
           = [\<lparr> severity = toSeverity (missingColonSeverity st), message = MissingColon,
                 drange = \<lparr> startLine = int i, startCharacter = 0, endLine = int i,
                            endCharacter = int (length (doc ! i)) \<rparr> \<rparr>]"
    using assms(3,4)
    by (simp add: validateTextDocument_def unbalanced_not_missing unknownVerb_not_missing
        missingColonAt_def makeRange_def)
next
  show "\<not> isStartTask (doc ! i)" "\<not> isEndTask (doc ! i)"
    using candidate_not_task [OF assms(3)] by simp_all
next
  assume h: "isBlockHeader (trim l')"
  have a: "\<not> isStartTask (doc ! i)" "\<not> isEndTask (doc ! i)"
    using candidate_not_task [OF assms(3)] by simp_all
  have b: "\<not> isStartTask l'" "\<not> isEndTask l'"
    using header_not_task [OF h] by simp_all
  have "filter isStartTask (doc[i := l']) = filter isStartTask doc"
    and "filter isEndTask (doc[i := l']) = filter isEndTask doc"
    using assms(2) a b by (simp_all add: filter_update_irrelevant)
  then have "map message (unbalancedTaskPass st (doc[i := l'])) = map message (unbalancedTaskPass st doc)"
    by (simp add: unbalancedTaskPass_def Let_def)
  then show "map message (filter isUnbalancedTask (validateTextDocument st (doc[i := l'])))
              = map message (filter isUnbalancedTask (validateTextDocument st doc))"
    by (simp add: unbalanced_of_validate)
qed

text \<open>A task with one header that lacks its colon.\<close>

lemma missingColon_recognized_example:
  \<open>filter (\<lambda>d. isMissingColon d \<and> startLine (drange d) = int 1)
       (validateTextDocument defaultSettings [''start task "A"'', ''  if x'', ''end task''])
     = [\<lparr> severity = Some SevHint, message = MissingColon, drange = \<lparr> startLine = 1, startCharacter = 0, endLine = 1, endCharacter = 6 \<rparr> \<rparr>]
   \<and> map message (filter isUnbalancedTask
        (validateTextDocument defaultSettings [''start task "A"'', ''  if x:'', ''end task''])) = []
   \<and> map message (filter isUnbalancedTask
        (validateTextDocument defaultSettings [''start task "A"'', ''  if x'', ''end task''])) = []\<close>
proof -
  let ?doc = \<open>[''start task "A"'', ''  if x'', ''end task'']\<close>
  have 1: "missingColonSeverity defaultSettings \<noteq> Off" by (simp add: defaultSettings_def)
  have 2: "1 < length ?doc" by simp
  have 3: "endsWithColonCandidate (?doc ! 1)" by code_simp
  have 4: "\<not> endsWith (trim (?doc ! 1)) '':''" by code_simp
  have 5: "isBlockHeader (trim ''  if x:'')" by code_simp
  have 6: \<open>map message (filter isUnbalancedTask
        (validateTextDocument defaultSettings [''start task "A"'', ''  if x'', ''end task''])) = []\<close>
    by code_simp
  from missingColon_recognized_header [OF 1 2 3 4, of "''  if x:''"] 5 6
  show ?thesis by (simp add: defaultSettings_def)
qed

section \<open>Blank lines and comment lines\<close>

lemma star_cls_first:
  "q \<in> set (star_cls k b s) \<Longrightarrow> q = (b, s) \<or> (\<exists>c s'. s = c # s' \<and> cc_ok k c)"
  by (cases s) (auto split: if_splits)

lemma rmatch_first:
  "q \<in> set (rmatch r p) \<Longrightarrow>
     (q = p \<and> nullable r) \<or> (\<exists>c s'. snd p = c # s' \<and> first r c)"
proof (induction r arbitrary: p q)
  case (Seq a b)
  from Seq.prems obtain m where m: "m \<in> set (rmatch a p)" and q: "q \<in> set (rmatch b m)"
    by auto
  from Seq.IH(1) [OF m] show ?case
  proof
    assume "m = p \<and> nullable a"
    then show ?thesis using Seq.IH(2) [OF q] by auto
  next
    assume "\<exists>c s'. snd p = c # s' \<and> first a c"
    then show ?thesis by auto
  qed
next
  case (Alt a b)
  from Alt.prems have "q \<in> set (rmatch a p) \<or> q \<in> set (rmatch b p)" by simp
  then show ?case using Alt.IH(1) [of q p] Alt.IH(2) [of q p] by auto
next
  case (Opt r)
  from Opt.prems have "q \<in> set (rmatch r p) \<or> q = p" by auto
  then show ?case using Opt.IH [of q p] by auto
next
  case (Star k)
  then show ?case using star_cls_first [of q k "fst p" "snd p"] by auto
next
  case (Cls k)
  then show ?case by (cases "snd p") (auto split: if_splits)
next
  case Eps
  then show ?case by simp
next
  case Wb
  then show ?case by (simp split: if_splits)
next
  case Eoi
  then show ?case by (simp split: if_splits)
qed

lemma no_match_empty: "\<not> nullable r \<Longrightarrow> \<not> test_anchored r []"
  unfolding test_anchored_def using rmatch_first [of _ r "(None, [])"]
  by (metis list.distinct(1) list.set_intros(1) neq_Nil_conv snd_conv)

lemma no_match_first: "\<not> nullable r \<Longrightarrow> \<not> first r c \<Longrightarrow> \<not> test_anchored r (c # s)"
  unfolding test_anchored_def using rmatch_first [of _ r "(None, c # s)"]
  by (metis list.inject list.set_intros(1) neq_Nil_conv snd_conv)

lemma no_match_hidden:
  assumes "\<not> nullable r" "\<not> first r CHR ''/''" "t = [] \<or> prefix ''//'' t"
  shows "\<not> test_anchored r t"
proof (cases t)
  case Nil
  then show ?thesis using assms(1) by (simp add: no_match_empty)
next
  case (Cons c s)
  with assms(3) have "c = CHR ''/''" by auto
  then show ?thesis using Cons assms(1,2) by (simp add: no_match_first)
qed

lemma hidden_trim: "\<not> isVisible l \<Longrightarrow> trim l = [] \<or> prefix ''//'' (trim l)"
  by (auto simp: isVisible_def isBlankLine_def isCommentOnly_def startsWith_def)

lemma trimEnd_Nil_iff: "trimEnd s = [] \<longleftrightarrow> (\<forall>c \<in> set s. is_space c)"
  by (auto simp: trimEnd_def dropWhile_eq_Nil_conv)

lemma trimStart_Nil_iff: "trimStart s = [] \<longleftrightarrow> (\<forall>c \<in> set s. is_space c)"
  by (auto simp: trimStart_def dropWhile_eq_Nil_conv)

lemma trimStart_head: "trimStart s = c # r \<Longrightarrow> \<not> is_space c"
  unfolding trimStart_def by (metis hd_dropWhile list.distinct(1) list.sel(1))

lemma trim_Nil_iff: "trim l = [] \<longleftrightarrow> (\<forall>c \<in> set l. is_space c)"
proof
  assume t: "trim l = []"
  show "\<forall>c \<in> set l. is_space c"
  proof (cases "trimStart l")
    case Nil
    then show ?thesis by (simp add: trimStart_Nil_iff)
  next
    case (Cons c r)
    then have "\<not> is_space c" by (rule trimStart_head)
    moreover have "\<forall>c \<in> set (trimStart l). is_space c"
      using t by (simp add: trim_def trimEnd_Nil_iff)
    ultimately show ?thesis using Cons by simp
  qed
next
  assume "\<forall>c \<in> set l. is_space c"
  then have "trimStart l = []" by (simp add: trimStart_Nil_iff)
  then show "trim l = []" by (simp add: trim_def trimEnd_def)
qed

lemma hidden_trimStart: "\<not> isVisible l \<Longrightarrow> trimStart l = [] \<or> prefix ''//'' (trimStart l)"
proof -
  assume "\<not> isVisible l"
  then consider "trim l = []" | "prefix ''//'' (trim l)" using hidden_trim by blast
  then show ?thesis
  proof cases
    case 1
    then show ?thesis by (simp add: trim_Nil_iff trimStart_Nil_iff)
  next
    case 2
    then show ?thesis by (simp add: prefix_trim)
  qed
qed

lemma hidden_not_task: "\<not> isVisible l \<Longrightarrow> \<not> isStartTask l \<and> \<not> isEndTask l"
  using hidden_trimStart [of l] isStartTask_prefix [of l] isEndTask_prefix [of l]
  by (auto simp: prefix_def)

lemma nullable_lit [simp]: "nullable (lit w) \<longleftrightarrow> w = []"
  by (induction w) simp_all

lemma first_lit [simp]: "first (lit w) c \<longleftrightarrow> (\<exists>r. w = c # r)"
  by (cases w) auto

lemma hidden_fmt:
  assumes "\<not> isVisible l"
  shows "\<not> fmtDedents (trim l)" "\<not> fmtOpens (trim l)"
proof -
  note h = hidden_trim [OF assms]
  have 1: "\<not> test_anchored fmtEndTaskRe (trim l)"
    by (rule no_match_hidden [OF _ _ h]) (simp_all add: fmtEndTaskRe_def plus_def)
  have 2: "\<not> test_anchored fmtTransitionRe (trim l)"
    by (rule no_match_hidden [OF _ _ h])
      (simp_all add: fmtTransitionRe_def elseifHeader_def elseHeader_def)
  have 3: "\<not> test_anchored fmtStartTaskRe (trim l)"
    by (rule no_match_hidden [OF _ _ h]) (simp_all add: fmtStartTaskRe_def plus_def)
  have 4: "\<not> test_anchored blockHeaderRe (trim l)"
    by (rule no_match_hidden [OF _ _ h])
      (simp_all add: blockHeaderRe_def ifHeader_def elseifHeader_def elseHeader_def plus_def)
  show "\<not> fmtDedents (trim l)" using 1 2 by (simp add: fmtDedents_def)
  show "\<not> fmtOpens (trim l)" using 3 4 by (simp add: fmtOpens_def isBlockHeader_def)
qed

lemma formatLoop_hidden:
  "\<not> isVisible l \<Longrightarrow>
     formatLoop indent lv (l # rest)
       = (lv, formatLine indent lv (trim l)) # formatLoop indent lv rest"
  using hidden_fmt [of l] by (simp add: Let_def preLevel_cases postLevel_cases)

lemma formatLoop_visible_levels:
  "map fst (filter (\<lambda>(lv, l). isVisible l) (zip (map fst (formatLoop indent lv doc)) doc))
     = map fst (formatLoop indent lv (filter isVisible doc))"
proof (induction doc arbitrary: lv)
  case Nil
  then show ?case by simp
next
  case (Cons l doc)
  show ?case
  proof (cases "isVisible l")
    case True
    then show ?thesis using Cons.IH by (simp add: Let_def)
  next
    case False
    then show ?thesis using Cons.IH [of lv] by (simp add: formatLoop_hidden del: formatLoop.simps)
  qed
qed

lemma indexOf_after_spaces:
  "\<forall>c \<in> set ws. is_space c \<Longrightarrow>
     indexOf (ws @ s) ''//'' = map_option (\<lambda>k. length ws + k) (indexOf s ''//'')"
proof (induction ws)
  case Nil
  then show ?case by (simp add: option.map_ident)
next
  case (Cons c ws)
  then have "c \<noteq> CHR ''/''" by (auto simp: is_space_def js_space_def)
  then show ?case using Cons by (simp add: option.map_comp comp_def)
qed

lemma indexOf_spaces: "\<forall>c \<in> set ws. is_space c \<Longrightarrow> indexOf ws ''//'' = None"
  using indexOf_after_spaces [of ws "[]"] by simp

lemma hidden_strip: "\<not> isVisible l \<Longrightarrow> stripLineComment l = []"
proof -
  assume h: "\<not> isVisible l"
  then consider "trim l = []" | "prefix ''//'' (trimStart l)"
    using hidden_trim [of l] prefix_trim [of "''//''" l] by blast
  then show ?thesis
  proof cases
    case 1
    then have sp: "\<forall>c \<in> set l. is_space c" by (simp add: trim_Nil_iff)
    then show ?thesis by (simp add: stripLineComment_def indexOf_spaces trimEnd_Nil_iff)
  next
    case 2
    define ws where "ws = takeWhile is_space l"
    have l: "l = ws @ trimStart l" by (simp add: ws_def trimStart_def)
    have sp: "\<forall>c \<in> set ws. is_space c" unfolding ws_def by (metis set_takeWhileD)
    obtain r where r: "trimStart l = ''//'' @ r" using 2 by (auto simp: prefix_def)
    have "indexOf (ws @ trimStart l) ''//'' = Some (length ws)"
      using indexOf_after_spaces [OF sp, of "trimStart l"] r by simp
    then have "indexOf l ''//'' = Some (length ws)" using l by simp
    moreover have "take (length ws) l = ws" using l by (metis append_eq_conv_conj)
    ultimately show ?thesis using sp by (simp add: stripLineComment_def trimEnd_Nil_iff)
  qed
qed

lemma taskBalanceLoop_visible:
  "taskBalanceLoop sev b (filter (\<lambda>(i, l). isVisible l) xs) stack out
     = taskBalanceLoop sev b xs stack out"
proof (induction xs arbitrary: stack out)
  case Nil
  then show ?case by simp
next
  case (Cons x xs)
  obtain i l where x: "x = (i, l)" by (cases x)
  show ?case
  proof (cases "isVisible l")
    case True
    then show ?thesis using Cons.IH x by (simp add: Let_def split: list.splits)
  next
    case False
    then have s: "stripLineComment l = []" by (rule hidden_strip)
    show ?thesis
    proof (cases "int (length out) < b")
      case True
      then show ?thesis using Cons.IH [of stack out] x False s by simp
    next
      case lim: False
      then show ?thesis
        using Cons.IH [of stack out] x False taskBalanceLoop_stop [OF lim, of sev xs stack]
        by simp
    qed
  qed
qed

lemma taskFoldLoop_skip:
  assumes "\<And>l. \<not> V l \<Longrightarrow> \<not> isStartTask l \<and> \<not> isEndTask l"
  shows "taskFoldLoop (filter (\<lambda>(i, l). V l) xs) ts folds = taskFoldLoop xs ts folds"
proof (induction xs arbitrary: ts folds)
  case Nil
  then show ?case by simp
next
  case (Cons x xs)
  obtain i l where x: "x = (i, l)" by (cases x)
  show ?case
  proof (cases "V l")
    case True
    then show ?thesis using Cons.IH x by (simp split: option.splits)
  next
    case False
    then show ?thesis using Cons.IH [of ts folds] x assms [of l] by simp
  qed
qed

lemma isBlank_spaces: "isBlank t \<Longrightarrow> \<forall>c \<in> set t. is_space c"
proof -
  assume "isBlank t"
  then obtain q where q: "q \<in> set (star_cls sp None t)" and e: "rmatch Eoi q \<noteq> []"
    by (auto simp: isBlank_def test_anchored_def blankRe_def)
  from e have "snd q = []" by (simp split: if_splits)
  with star_cls_split [OF q] have "list_all (cc_ok sp) t" by auto
  then show ?thesis by (simp add: list_all_iff sp_def is_space_def)
qed

lemma comment_not_fold:
  assumes "isCommentOnly l"
  shows "\<not> isBlockHeader (trim l)" "\<not> isBlank (trim l)"
proof -
  from assms have p: "prefix ''//'' (trim l)" by (simp add: isCommentOnly_def startsWith_def)
  then have h: "trim l = [] \<or> prefix ''//'' (trim l)" by simp
  show "\<not> isBlockHeader (trim l)"
    unfolding isBlockHeader_def
    by (rule no_match_hidden [OF _ _ h])
      (simp_all add: blockHeaderRe_def ifHeader_def elseifHeader_def elseHeader_def plus_def)
  from p obtain r where "trim l = CHR ''/'' # r" by (auto simp: prefix_def)
  moreover have "\<not> is_space CHR ''/''" by (simp add: is_space_def js_space_def)
  ultimately show "\<not> isBlank (trim l)" using isBlank_spaces [of "trim l"] by auto
qed

lemma blockFoldLoop_comments:
  "blockFoldLoop (filter (\<lambda>(i, l). \<not> isCommentOnly l) xs) stack folds
     = blockFoldLoop xs stack folds"
proof (induction xs arbitrary: stack folds)
  case Nil
  then show ?case by simp
next
  case (Cons x xs)
  obtain i l where x: "x = (i, l)" by (cases x)
  show ?case
  proof (cases "isCommentOnly l")
    case False
    then show ?thesis using Cons.IH x by (simp add: Let_def split: list.splits)
  next
    case True
    then show ?thesis using Cons.IH [of stack folds] x comment_not_fold [OF True] by (simp add: Let_def)
  qed
qed

lemma comment_not_task: "isCommentOnly l \<Longrightarrow> \<not> isStartTask l \<and> \<not> isEndTask l"
  using hidden_not_task [of l] by (simp add: isVisible_def)

lemma filter_filter_implied:
  "(\<And>x. P x \<Longrightarrow> Q x) \<Longrightarrow> filter P (filter Q xs) = filter P xs"
  by (induction xs) auto

text \<open>
  Claim C7 (blank and comment-only lines never open or close a block frame: folding
  ranges, levels and task-balance diagnostics are determined by the other lines alone; a
  blank or comment line inside a block does not end its fold).  The folding pass closes
  the innermost open block on every blank line: with a blank line after \<open>say a\<close> the fold
  of the block ends at line 1, without it the fold runs to the last line.
\<close>

theorem C7_blank_line_ends_fold:
  "map (\<lambda>f. (foldStart f, foldEnd f))
      (onFoldingRanges (Some [''if x:'', ''say a'', '''', ''say b''])) = [(0, 1)]
   \<and> map (\<lambda>f. (foldStart f, foldEnd f))
      (onFoldingRanges (Some [''if x:'', ''say a'', ''say b''])) = [(0, 2)]"
  by code_simp

text \<open>
  Claim C7, amended.  Blank lines and comment-only lines never change an indentation
  level or a task-balance diagnostic, and comment-only lines never open or close a fold:
  the levels the formatter gives to the visible lines are the levels it gives them when
  the other lines are deleted; the totals of the server's task-balance diagnostic, the
  diagnostics of the client-side task-balance pass and the task folds are the same when
  the passes run over the visible lines only; and the folding ranges are the same when
  the folding pass runs over the lines that are not comment-only.  (A blank line does
  close the innermost open block fold.)
\<close>

theorem C7_hidden_lines:
  "map fst (filter (\<lambda>(lv, l). isVisible l) (zip (formatLevels st doc) doc))
     = formatLevels st (filter isVisible doc)
   \<and> map message (unbalancedTaskPass st (filter isVisible doc))
     = map message (unbalancedTaskPass st doc)
   \<and> collectTaskBalanceDiagnostics doc sev b = taskBalanceOn doc sev b (enumerate 0 doc)
   \<and> taskBalanceOn doc sev b (filter (\<lambda>(i, l). isVisible l) (enumerate 0 doc))
     = taskBalanceOn doc sev b (enumerate 0 doc)
   \<and> taskFoldLoop (filter (\<lambda>(i, l). isVisible l) (enumerate 0 doc)) None []
     = taskFoldLoop (enumerate 0 doc) None []
   \<and> onFoldingRanges (Some doc) = foldsOn (length doc) (enumerate 0 doc)
   \<and> foldsOn (length doc) (filter (\<lambda>(i, l). \<not> isCommentOnly l) (enumerate 0 doc))
     = foldsOn (length doc) (enumerate 0 doc)"
proof (intro conjI)
  show "map fst (filter (\<lambda>(lv, l). isVisible l) (zip (formatLevels st doc) doc))
     = formatLevels st (filter isVisible doc)"
    unfolding formatLevels_def by (rule formatLoop_visible_levels)
next
  have "filter isStartTask (filter isVisible doc) = filter isStartTask doc"
    by (rule filter_filter_implied) (use hidden_not_task in blast)
  moreover have "filter isEndTask (filter isVisible doc) = filter isEndTask doc"
    by (rule filter_filter_implied) (use hidden_not_task in blast)
  ultimately show "map message (unbalancedTaskPass st (filter isVisible doc))
     = map message (unbalancedTaskPass st doc)"
    by (simp add: unbalancedTaskPass_def Let_def)
next
  show "collectTaskBalanceDiagnostics doc sev b = taskBalanceOn doc sev b (enumerate 0 doc)"
    by (simp add: collectTaskBalanceDiagnostics_def taskBalanceOn_def)
next
  show "taskBalanceOn doc sev b (filter (\<lambda>(i, l). isVisible l) (enumerate 0 doc))
     = taskBalanceOn doc sev b (enumerate 0 doc)"
    by (simp only: taskBalanceOn_def taskBalanceLoop_visible)
next
  show "taskFoldLoop (filter (\<lambda>(i, l). isVisible l) (enumerate 0 doc)) None []
     = taskFoldLoop (enumerate 0 doc) None []"
    by (rule taskFoldLoop_skip) (rule hidden_not_task)
next
  show "onFoldingRanges (Some doc) = foldsOn (length doc) (enumerate 0 doc)"
    by (simp add: onFoldingRanges_def foldsOn_def)
next
  have "taskFoldLoop (filter (\<lambda>(i, l). \<not> isCommentOnly l) xs) None []
          = taskFoldLoop xs None []" for xs
    by (rule taskFoldLoop_skip) (simp add: comment_not_task)
  then show "foldsOn (length doc) (filter (\<lambda>(i, l). \<not> isCommentOnly l) (enumerate 0 doc))
     = foldsOn (length doc) (enumerate 0 doc)"
    by (simp only: foldsOn_def blockFoldLoop_comments)
qed

text \<open>
  The theorem on a task whose header block holds a comment line: the folds are those of
  the pass over the lines without the comment, the task fold 0 to 4 and the block fold
  1 to 4.
\<close>

theorem C7_hidden_lines_witness:
  \<open>map (\<lambda>f. (foldStart f, foldEnd f))
      (onFoldingRanges (Some [''start task "A"'', ''if x:'', ''  // note'', ''  say a'', ''end task'']))
     = [(0, 4), (1, 4)]
   \<and> map (\<lambda>f. (foldStart f, foldEnd f))
      (foldsOn 5 [(0, ''start task "A"''), (1, ''if x:''), (3, ''  say a''), (4, ''end task'')])
     = [(0, 4), (1, 4)]\<close>
proof -
  let ?doc = \<open>[''start task "A"'', ''if x:'', ''  // note'', ''  say a'', ''end task'']\<close>
  have f: \<open>filter (\<lambda>(i, l). \<not> isCommentOnly l) (enumerate 0 ?doc)
            = [(0, ''start task "A"''), (1, ''if x:''), (3, ''  say a''), (4, ''end task'')]\<close>
    by code_simp
  have v: \<open>map (\<lambda>f. (foldStart f, foldEnd f))
      (foldsOn 5 [(0, ''start task "A"''), (1, ''if x:''), (3, ''  say a''), (4, ''end task'')])
     = [(0, 4), (1, 4)]\<close>
    by code_simp
  have len: "length ?doc = 5" by simp
  from C7_hidden_lines [of defaultSettings ?doc 1 200]
  have a: "onFoldingRanges (Some ?doc) = foldsOn (length ?doc) (enumerate 0 ?doc)"
    and b: "foldsOn (length ?doc) (filter (\<lambda>(i, l). \<not> isCommentOnly l) (enumerate 0 ?doc))
              = foldsOn (length ?doc) (enumerate 0 ?doc)"
    by blast+
  have \<open>onFoldingRanges (Some ?doc)
          = foldsOn 5 [(0, ''start task "A"''), (1, ''if x:''), (3, ''  say a''), (4, ''end task'')]\<close>
    using a b unfolding f len by (simp only:)
  then show ?thesis using v by (simp only: simp_thms)
qed

section \<open>The diagnostic budget\<close>

text \<open>
  Claim C8 (for every budget \<open>N \<ge> 1\<close> one analysis pass emits at most \<open>N\<close> diagnostics,
  and the diagnostics emitted before the budget is reached are kept).  The pass of the
  language server has no budget: its settings hold no such number and
  \<open>validateTextDocument\<close> emits a diagnostic for every finding.  On two headers without
  their colons it emits two diagnostics, where the client-side pass with the budget 1
  emits one.
\<close>

theorem C8_server_has_no_budget:
  "length (validateTextDocument defaultSettings [''if x'', ''if y'']) = 2
   \<and> map_option length
        (validateDocument \<lparr> validationEnable = True, cfgMaxProblems = 1,
            lintMissingColon = LintHint, lintUnbalancedTask = LintWarning \<rparr>
          [''if x'', ''if y'']) = Some 1"
  by code_simp

text \<open>
  Claim C8, amended.  For every document and every configured budget, the client-side
  pass \<open>validateDocument\<close>, when validation is enabled, emits at most \<open>N\<close> diagnostics,
  where \<open>N\<close> is the configured budget raised to at least 1; and what it emits is the first
  \<open>N\<close> of the diagnostics it emits under any larger budget: once the budget is reached
  nothing more is emitted and nothing emitted is dropped.
\<close>

theorem C8_client_budget:
  assumes "validationEnable cfg"
  shows "\<exists>ds. validateDocument cfg doc = Some ds
           \<and> int (length ds) \<le> max 1 (cfgMaxProblems cfg)
           \<and> (\<forall>n'. cfgMaxProblems cfg \<le> n' \<longrightarrow>
                 (\<exists>ds'. validateDocument (cfg \<lparr> cfgMaxProblems := n' \<rparr>) doc = Some ds'
                        \<and> ds = take (nat (max 1 (cfgMaxProblems cfg))) ds'))"
proof -
  define U where "U = (if ext_toSeverity (lintMissingColon cfg) \<noteq> 0
             then concat (map (missingAt (ext_toSeverity (lintMissingColon cfg))) (enumerate 0 doc))
             else [])
            @ (if ext_toSeverity (lintUnbalancedTask cfg) \<noteq> 0
               then allBalance doc (ext_toSeverity (lintUnbalancedTask cfg)) else [])"
  have v: "validateDocument cfg doc = Some (take (nat (max 1 (cfgMaxProblems cfg))) U)"
    using validateDocument_take [OF assms] by (simp only: U_def)
  have len: "int (length (take (nat (max 1 (cfgMaxProblems cfg))) U)) \<le> max 1 (cfgMaxProblems cfg)"
    by simp
  have larger: "\<exists>ds'. validateDocument (cfg \<lparr> cfgMaxProblems := n' \<rparr>) doc = Some ds'
                  \<and> take (nat (max 1 (cfgMaxProblems cfg))) U
                      = take (nat (max 1 (cfgMaxProblems cfg))) ds'"
    if "cfgMaxProblems cfg \<le> n'" for n'
  proof -
    have "validateDocument (cfg \<lparr> cfgMaxProblems := n' \<rparr>) doc = Some (take (nat (max 1 n')) U)"
      using validateDocument_take [of "cfg \<lparr> cfgMaxProblems := n' \<rparr>" doc] assms
      by (simp add: U_def)
    moreover have "take (nat (max 1 (cfgMaxProblems cfg))) U
                     = take (nat (max 1 (cfgMaxProblems cfg))) (take (nat (max 1 n')) U)"
      using that by (simp add: min_def)
    ultimately show ?thesis by blast
  qed
  show ?thesis using v len larger by blast
qed

text \<open>
  The theorem at the budget 1, on a header without its colon followed by a closer without
  opener: one diagnostic, the first of the two emitted under the budget 200.
\<close>

theorem C8_client_budget_witness:
  "\<exists>ds ds'.
     validateDocument \<lparr> validationEnable = True, cfgMaxProblems = 1,
         lintMissingColon = LintHint, lintUnbalancedTask = LintWarning \<rparr>
       [''if x'', ''end task''] = Some ds
     \<and> validateDocument \<lparr> validationEnable = True, cfgMaxProblems = 200,
         lintMissingColon = LintHint, lintUnbalancedTask = LintWarning \<rparr>
       [''if x'', ''end task''] = Some ds'
     \<and> int (length ds) \<le> 1 \<and> ds = take 1 ds' \<and> length ds' = 2"
proof -
  let ?cfg = "\<lparr> validationEnable = True, cfgMaxProblems = 1,
         lintMissingColon = LintHint, lintUnbalancedTask = LintWarning \<rparr>"
  let ?doc = "[''if x'', ''end task'']"
  have en: "validationEnable ?cfg" by simp
  from C8_client_budget [OF en, of ?doc] obtain ds where
    ds: "validateDocument ?cfg ?doc = Some ds" "int (length ds) \<le> max 1 (cfgMaxProblems ?cfg)"
    and big: "\<forall>n'. cfgMaxProblems ?cfg \<le> n' \<longrightarrow>
                 (\<exists>ds'. validateDocument (?cfg \<lparr> cfgMaxProblems := n' \<rparr>) ?doc = Some ds'
                        \<and> ds = take (nat (max 1 (cfgMaxProblems ?cfg))) ds')"
    by blast
  from big have "\<exists>ds'. validateDocument (?cfg \<lparr> cfgMaxProblems := 200 \<rparr>) ?doc = Some ds'
                        \<and> ds = take (nat (max 1 (cfgMaxProblems ?cfg))) ds'"
    by simp
  then obtain ds' where ds': "validateDocument (?cfg \<lparr> cfgMaxProblems := 200 \<rparr>) ?doc = Some ds'"
    "ds = take (nat (max 1 (cfgMaxProblems ?cfg))) ds'"
    by blast
  have "map_option length (validateDocument (?cfg \<lparr> cfgMaxProblems := 200 \<rparr>) ?doc) = Some 2"
    by code_simp
  with ds' have l2: "length ds' = 2" by simp
  show ?thesis using ds ds' l2 by simp
qed

section \<open>Unterminated tasks in the outline\<close>

lemma symbolLoop_stack:
  "fst (symbolLoop doc xs (map frameOf S) syms)
     = map frameOf (fst (foldl (mstep (outlineTok \<circ> snd)) (S, B) xs))"
proof (induction xs arbitrary: S syms B)
  case Nil
  then show ?case by simp
next
  case (Cons x xs)
  obtain i l where x: "x = (i, l)" by (cases x)
  show ?case
  proof (cases "outlineTok l")
    case TOpen
    then have "symbolLoop doc (x # xs) (map frameOf S) syms
                 = symbolLoop doc xs (map frameOf ((i, l) # S)) syms"
      using x by (auto simp: outlineTok_def frameOf_def split: if_splits option.splits)
    moreover have "foldl (mstep (outlineTok \<circ> snd)) (S, B) (x # xs)
                     = foldl (mstep (outlineTok \<circ> snd)) ((i, l) # S, B) xs"
      using TOpen x by simp
    ultimately show ?thesis using Cons.IH [of "(i, l) # S" syms B] by (simp only:)
  next
    case TOther
    then have "symbolLoop doc (x # xs) (map frameOf S) syms
                 = symbolLoop doc xs (map frameOf S) syms"
      using x by (auto simp: outlineTok_def split: if_splits option.splits)
    moreover have "foldl (mstep (outlineTok \<circ> snd)) (S, B) (x # xs)
                     = foldl (mstep (outlineTok \<circ> snd)) (S, B) xs"
      using TOther x by simp
    ultimately show ?thesis using Cons.IH [of S syms B] by (simp only:)
  next
    case TClose
    then have m: "taskMatch l = None" "templateMatch l = None" "isEndTask l"
      by (auto simp: outlineTok_def split: if_splits)
    show ?thesis
    proof (cases S)
      case Nil
      then have "symbolLoop doc (x # xs) (map frameOf S) syms
                   = symbolLoop doc xs (map frameOf S) syms"
        using x m by simp
      moreover have "foldl (mstep (outlineTok \<circ> snd)) (S, B) (x # xs)
                       = foldl (mstep (outlineTok \<circ> snd)) (S, B @ [x]) xs"
        using TClose x Nil by simp
      ultimately show ?thesis using Cons.IH [of S syms "B @ [x]"] by (simp only:)
    next
      case (Cons s S')
      then have "symbolLoop doc (x # xs) (map frameOf S) syms
                   = symbolLoop doc xs (map frameOf S') (syms @ [mkSymbol doc (frameOf s) (int i)])"
        using x m by simp
      moreover have "foldl (mstep (outlineTok \<circ> snd)) (S, B) (x # xs)
                       = foldl (mstep (outlineTok \<circ> snd)) (S', B) xs"
        using TClose x Cons by simp
      ultimately show ?thesis
        using Cons.IH [of S' "syms @ [mkSymbol doc (frameOf s) (int i)]" B] by (simp only:)
    qed
  qed
qed

lemma outline_stack:
  "fst (symbolLoop doc (enumerate 0 doc) [] [])
     = map frameOf (rev (map (\<lambda>i. (i, doc ! i))
         (filter (unmatchedOpener (map outlineTok doc)) [0..<length doc])))"
proof -
  have ks: "map (outlineTok \<circ> snd) (enumerate 0 doc) = map outlineTok doc"
    by (simp add: enumerate_eq_zip map_snd_zip flip: map_map)
  have "fst (mrun (outlineTok \<circ> snd) (enumerate 0 doc))
          = rev (map (\<lambda>i. (i, doc ! i))
              (filter (unmatchedOpener (map outlineTok doc)) [0..<length doc]))"
    using mrun_unmatched [of "outlineTok \<circ> snd" "enumerate 0 doc"]
    by (simp only: ks length_enumerate enumerate_nth_map [OF filter_upt_bound] fst_conv)
  then show ?thesis
    using symbolLoop_stack [of doc "enumerate 0 doc" "[]" "[]" "[]"]
    by (simp add: mrun_def)
qed

text \<open>
  A titled opener that the stack of the outline leaves open is closed at the end of the
  document: its symbol runs to the end of the last line.
\<close>

lemma outline_unterminated:
  assumes "taskMatch (doc ! i) = Some title"
    and "unmatchedOpener (map outlineTok doc) i"
  shows "\<lparr> name = title, kind = Module,
           srange = \<lparr> startLine = int i, startCharacter = 0,
                      endLine = int (length doc) - 1,
                      endCharacter = int (length (doc ! (length doc - 1))) \<rparr>,
           selectionRange = \<lparr> startLine = int i, startCharacter = 0, endLine = int i,
                      endCharacter = int (length (doc ! i)) \<rparr> \<rparr>
         \<in> set (onDocumentSymbol (Some doc))"
proof -
  have i: "i < length doc" using assms(2) by (simp add: unmatchedOpener_def)
  let ?fr = "\<lparr> fname = title, fstartLine = i, fkind = Module \<rparr>"
  have "frameOf (i, doc ! i) = ?fr" using assms(1) by (simp add: frameOf_def)
  moreover have "i \<in> set (filter (unmatchedOpener (map outlineTok doc)) [0..<length doc])"
    using assms(2) i by simp
  ultimately have "?fr \<in> set (fst (symbolLoop doc (enumerate 0 doc) [] []))"
    unfolding outline_stack by (force simp: image_iff)
  then have "mkSymbol doc ?fr (int (length doc) - 1) \<in> set (onDocumentSymbol (Some doc))"
    by (auto simp: onDocumentSymbol_def case_prod_unfold Let_def)
  moreover have "nat (int (length doc) - 1) = length doc - 1" by simp
  moreover have "length doc - 1 < length doc" using i by simp
  ultimately show ?thesis using i by (simp add: mkSymbol_def lineAt_def)
qed

text \<open>
  No frame is lost: a frame on the stack, or pushed for a later opener, is still on the
  stack at the end of the loop or was written as a symbol at an \<open>end task\<close> line after
  its opener.
\<close>

lemma symbolLoop_step:
  "symbolLoop doc ((i, l) # rest) st sy =
     (case outlineTok l of
        TOpen \<Rightarrow> symbolLoop doc rest (frameOf (i, l) # st) sy
      | TClose \<Rightarrow> (case st of
                     [] \<Rightarrow> symbolLoop doc rest st sy
                   | fr # st' \<Rightarrow> symbolLoop doc rest st' (sy @ [mkSymbol doc fr (int i)]))
      | TOther \<Rightarrow> symbolLoop doc rest st sy)"
  by (auto simp: outlineTok_def frameOf_def split: option.splits list.splits)

lemma symbolLoop_sub: "set sy \<subseteq> set (snd (symbolLoop doc xs st sy))"
proof (induction xs arbitrary: st sy)
  case Nil
  then show ?case by simp
next
  case (Cons x xs)
  obtain i l where x: "x = (i, l)" by (cases x)
  show ?case
  proof (cases "outlineTok l")
    case TOpen
    then show ?thesis using Cons.IH [of sy "frameOf (i, l) # st"] unfolding x symbolLoop_step by simp
  next
    case TOther
    then show ?thesis using Cons.IH [of sy st] unfolding x symbolLoop_step by simp
  next
    case TClose
    show ?thesis
    proof (cases st)
      case Nil
      then show ?thesis using TClose Cons.IH [of sy st] unfolding x symbolLoop_step by simp
    next
      case (Cons fr st')
      then show ?thesis
        using TClose Cons.IH [of "sy @ [mkSymbol doc fr (int i)]" st'] unfolding x symbolLoop_step
        by simp
    qed
  qed
qed

lemma fstartLine_frameOf: "fstartLine (frameOf (i, l)) = i"
  by (simp add: frameOf_def split: option.splits)

lemma symbolLoop_closed:
  assumes "fr \<in> set st
           \<or> (\<exists>k < length ls. outlineTok (ls ! k) = TOpen \<and> fr = frameOf (n + k, ls ! k))"
    and "\<forall>f \<in> set st. fstartLine f < n"
  shows "fr \<in> set (fst (symbolLoop doc (enumerate n ls) st sy))
         \<or> (\<exists>k < length ls. fstartLine fr < n + k \<and> isEndTask (ls ! k)
               \<and> mkSymbol doc fr (int (n + k)) \<in> set (snd (symbolLoop doc (enumerate n ls) st sy)))"
  using assms
proof (induction ls arbitrary: n st sy)
  case Nil
  then show ?case by simp
next
  case (Cons l ls)
  let ?later = "\<exists>k < length ls. outlineTok (ls ! k) = TOpen \<and> fr = frameOf (Suc n + k, ls ! k)"
  have split: "fr \<in> set st \<or> (outlineTok l = TOpen \<and> fr = frameOf (n, l)) \<or> ?later"
  proof -
    from Cons.prems(1) show ?thesis
    proof
      assume "fr \<in> set st"
      then show ?thesis by simp
    next
      assume "\<exists>k < length (l # ls). outlineTok ((l # ls) ! k) = TOpen \<and> fr = frameOf (n + k, (l # ls) ! k)"
      then obtain k where k: "k < length (l # ls)" "outlineTok ((l # ls) ! k) = TOpen"
        "fr = frameOf (n + k, (l # ls) ! k)" by blast
      show ?thesis
      proof (cases k)
        case 0
        then show ?thesis using k by simp
      next
        case (Suc k')
        then have "k' < length ls \<and> outlineTok (ls ! k') = TOpen \<and> fr = frameOf (Suc n + k', ls ! k')"
          using k by simp
        then show ?thesis by blast
      qed
    qed
  qed
  have lift: "fr \<in> set (fst (symbolLoop doc (enumerate n (l # ls)) st sy))
         \<or> (\<exists>k < length (l # ls). fstartLine fr < n + k \<and> isEndTask ((l # ls) ! k)
               \<and> mkSymbol doc fr (int (n + k)) \<in> set (snd (symbolLoop doc (enumerate n (l # ls)) st sy)))"
    if eq: "symbolLoop doc (enumerate n (l # ls)) st sy = symbolLoop doc (enumerate (Suc n) ls) st1 sy1"
      and r: "fr \<in> set (fst (symbolLoop doc (enumerate (Suc n) ls) st1 sy1))
         \<or> (\<exists>k < length ls. fstartLine fr < Suc n + k \<and> isEndTask (ls ! k)
               \<and> mkSymbol doc fr (int (Suc n + k)) \<in> set (snd (symbolLoop doc (enumerate (Suc n) ls) st1 sy1)))"
    for st1 sy1
  proof -
    from r show ?thesis
    proof
      assume "fr \<in> set (fst (symbolLoop doc (enumerate (Suc n) ls) st1 sy1))"
      then show ?thesis by (simp only: eq simp_thms)
    next
      assume "\<exists>k < length ls. fstartLine fr < Suc n + k \<and> isEndTask (ls ! k)
               \<and> mkSymbol doc fr (int (Suc n + k)) \<in> set (snd (symbolLoop doc (enumerate (Suc n) ls) st1 sy1))"
      then obtain k where k: "k < length ls" "fstartLine fr < Suc n + k" "isEndTask (ls ! k)"
        "mkSymbol doc fr (int (Suc n + k)) \<in> set (snd (symbolLoop doc (enumerate (Suc n) ls) st1 sy1))"
        by blast
      then have "Suc k < length (l # ls) \<and> fstartLine fr < n + Suc k \<and> isEndTask ((l # ls) ! Suc k)
               \<and> mkSymbol doc fr (int (n + Suc k)) \<in> set (snd (symbolLoop doc (enumerate n (l # ls)) st sy))"
        unfolding eq by simp
      then show ?thesis by blast
    qed
  qed
  have en: "enumerate n (l # ls) = (n, l) # enumerate (Suc n) ls" by simp
  show ?case
  proof (cases "outlineTok l")
    case TOpen
    have eq: "symbolLoop doc (enumerate n (l # ls)) st sy
                = symbolLoop doc (enumerate (Suc n) ls) (frameOf (n, l) # st) sy"
      unfolding en symbolLoop_step using TOpen by simp
    have p1: "fr \<in> set (frameOf (n, l) # st) \<or> ?later" using split by auto
    have p2: "\<forall>f \<in> set (frameOf (n, l) # st). fstartLine f < Suc n"
      using Cons.prems(2) by (auto simp: fstartLine_frameOf less_Suc_eq)
    from lift [OF eq Cons.IH [OF p1 p2]] show ?thesis .
  next
    case TOther
    have eq: "symbolLoop doc (enumerate n (l # ls)) st sy
                = symbolLoop doc (enumerate (Suc n) ls) st sy"
      unfolding en symbolLoop_step using TOther by simp
    have p1: "fr \<in> set st \<or> ?later" using split TOther by auto
    have p2: "\<forall>f \<in> set st. fstartLine f < Suc n" using Cons.prems(2) by (auto simp: less_Suc_eq)
    from lift [OF eq Cons.IH [OF p1 p2]] show ?thesis .
  next
    case TClose
    then have endl: "isEndTask l" by (auto simp: outlineTok_def split: if_splits)
    show ?thesis
    proof (cases st)
      case Nil
      have eq: "symbolLoop doc (enumerate n (l # ls)) st sy
                  = symbolLoop doc (enumerate (Suc n) ls) st sy"
        unfolding en symbolLoop_step using TClose Nil by simp
      have p1: "fr \<in> set st \<or> ?later" using split TClose by auto
      have p2: "\<forall>f \<in> set st. fstartLine f < Suc n" using Nil by simp
      from lift [OF eq Cons.IH [OF p1 p2]] show ?thesis .
    next
      case (Cons s st')
      have eq: "symbolLoop doc (enumerate n (l # ls)) st sy
                  = symbolLoop doc (enumerate (Suc n) ls) st' (sy @ [mkSymbol doc s (int n)])"
        unfolding en symbolLoop_step using TClose Cons by simp
      have p2: "\<forall>f \<in> set st'. fstartLine f < Suc n"
        using Cons.prems(2) Cons by (auto simp: less_Suc_eq)
      show ?thesis
      proof (cases "fr = s")
        case True
        have "mkSymbol doc s (int n) \<in> set (sy @ [mkSymbol doc s (int n)])" by simp
        then have "mkSymbol doc fr (int n)
                     \<in> set (snd (symbolLoop doc (enumerate (Suc n) ls) st' (sy @ [mkSymbol doc s (int n)])))"
          using symbolLoop_sub True by blast
        moreover have "fstartLine fr < n" using Cons.prems(2) Cons True by simp
        ultimately have "0 < length (l # ls) \<and> fstartLine fr < n + 0 \<and> isEndTask ((l # ls) ! 0)
               \<and> mkSymbol doc fr (int (n + 0)) \<in> set (snd (symbolLoop doc (enumerate n (l # ls)) st sy))"
          using endl unfolding eq by simp
        then show ?thesis by blast
      next
        case False
        have p1: "fr \<in> set st' \<or> ?later" using split TClose Cons False by auto
        from lift [OF eq Cons.IH [OF p1 p2]] show ?thesis .
      qed
    qed
  qed
qed


lemma outline_every_opener:
  assumes "i < length doc" and "taskMatch (doc ! i) = Some title"
  shows "\<exists>e. (e = length doc - 1 \<or> (i < e \<and> e < length doc \<and> isEndTask (doc ! e)))
             \<and> mkSymbol doc \<lparr> fname = title, fstartLine = i, fkind = Module \<rparr> (int e)
                  \<in> set (onDocumentSymbol (Some doc))"
proof -
  let ?fr = "\<lparr> fname = title, fstartLine = i, fkind = Module \<rparr>"
  let ?R = "symbolLoop doc (enumerate 0 doc) [] []"
  have fr: "frameOf (0 + i, doc ! i) = ?fr" using assms(2) by (simp add: frameOf_def)
  have op: "outlineTok (doc ! i) = TOpen" using assms(2) by (simp add: outlineTok_def)
  have "?fr \<in> set []
          \<or> (\<exists>k < length doc. outlineTok (doc ! k) = TOpen \<and> ?fr = frameOf (0 + k, doc ! k))"
    using assms(1) op fr by metis
  from symbolLoop_closed [OF this, of doc "[]"]
  have "?fr \<in> set (fst ?R)
         \<or> (\<exists>k < length doc. fstartLine ?fr < 0 + k \<and> isEndTask (doc ! k)
               \<and> mkSymbol doc ?fr (int (0 + k)) \<in> set (snd ?R))"
    by simp
  then show ?thesis
  proof
    assume "?fr \<in> set (fst ?R)"
    then have "mkSymbol doc ?fr (int (length doc) - 1) \<in> set (onDocumentSymbol (Some doc))"
      by (auto simp: onDocumentSymbol_def case_prod_unfold Let_def)
    moreover have "int (length doc) - 1 = int (length doc - 1)" using assms(1) by simp
    ultimately show ?thesis by (metis (no_types))
  next
    assume "\<exists>k < length doc. fstartLine ?fr < 0 + k \<and> isEndTask (doc ! k)
               \<and> mkSymbol doc ?fr (int (0 + k)) \<in> set (snd ?R)"
    then obtain k where k: "k < length doc" "i < k" "isEndTask (doc ! k)"
      "mkSymbol doc ?fr (int k) \<in> set (snd ?R)" by auto
    from k(4) have "mkSymbol doc ?fr (int k) \<in> set (onDocumentSymbol (Some doc))"
      by (auto simp: onDocumentSymbol_def case_prod_unfold Let_def)
    then show ?thesis using k(1-3) by blast
  qed
qed

text \<open>
  Claim C9 (for every task opener with no matching closer the outline holds a symbol
  named from its quoted title, from the opening line to the last line of the document).
  The outline pushes a frame only for a \<open>start task\<close> line with a quoted title.  In
  \<open>start task "A"\<close>, \<open>start task B\<close>, \<open>end task\<close>, \<open>say "x"\<close> the task check of the server
  counts two openers and one closer, and by the keywords the closer belongs to line 1 and
  line 0 has none; but the outline takes no frame for line 1, so the closer pops A and the
  symbol of A ends at line 2, not at the last line 3.
\<close>

theorem C9_untitled_opener_takes_closer:
  \<open>taskMatch ([''start task "A"'', ''start task B'', ''end task'', ''say "x"''] ! 0) = Some ''A''
   \<and> map keywordTok [''start task "A"'', ''start task B'', ''end task'', ''say "x"'']
       = [TOpen, TOpen, TClose, TOther]
   \<and> unmatchedOpener [TOpen, TOpen, TClose, TOther] 0
   \<and> \<not> unmatchedOpener [TOpen, TOpen, TClose, TOther] 1
   \<and> map (\<lambda>d. (message d, startLine (drange d)))
        (filter isUnbalancedTask
           (validateTextDocument defaultSettings
              [''start task "A"'', ''start task B'', ''end task'', ''say "x"'']))
       = [(UnbalancedTasks 2 1, 0)]
   \<and> map (\<lambda>s. (name s, startLine (srange s), endLine (srange s)))
        (onDocumentSymbol (Some [''start task "A"'', ''start task B'', ''end task'', ''say "x"'']))
       = [(''A'', 0, 2)]
   \<and> map outlineTok [''start task "A"'', ''start task B'', ''end task'', ''say "x"'']
       = [TOpen, TOther, TClose, TOther]\<close>
  by code_simp

text \<open>
  Claim C9, amended.  For every line \<open>start task "title"\<close> the outline holds a symbol
  named \<open>title\<close> that starts at this line and ends at the end of a later \<open>end task\<close> line
  or of the last line of the document: no task with a quoted title is dropped.  The
  outline matches its openers (\<open>start task "..."\<close> and \<open>template task "...":\<close> lines) with
  the \<open>end task\<close> lines by a stack; when this matching leaves the line open, the symbol
  runs to the end of the last line.
\<close>

theorem C9_titled_task_in_outline:
  assumes "i < length doc" and "taskMatch (doc ! i) = Some title"
  shows "(\<exists>e. (e = length doc - 1 \<or> (i < e \<and> e < length doc \<and> isEndTask (doc ! e)))
            \<and> \<lparr> name = title, kind = Module,
                 srange = \<lparr> startLine = int i, startCharacter = 0,
                            endLine = int e, endCharacter = int (length (doc ! e)) \<rparr>,
                 selectionRange = \<lparr> startLine = int i, startCharacter = 0, endLine = int i,
                            endCharacter = int (length (doc ! i)) \<rparr> \<rparr>
               \<in> set (onDocumentSymbol (Some doc)))
         \<and> (unmatchedOpener (map outlineTok doc) i \<longrightarrow>
              \<lparr> name = title, kind = Module,
                srange = \<lparr> startLine = int i, startCharacter = 0,
                           endLine = int (length doc) - 1,
                           endCharacter = int (length (doc ! (length doc - 1))) \<rparr>,
                selectionRange = \<lparr> startLine = int i, startCharacter = 0, endLine = int i,
                           endCharacter = int (length (doc ! i)) \<rparr> \<rparr>
              \<in> set (onDocumentSymbol (Some doc)))"
proof (intro conjI impI)
  let ?fr = "\<lparr> fname = title, fstartLine = i, fkind = Module \<rparr>"
  from outline_every_opener [OF assms] obtain e
    where e: "e = length doc - 1 \<or> (i < e \<and> e < length doc \<and> isEndTask (doc ! e))"
      and m: "mkSymbol doc ?fr (int e) \<in> set (onDocumentSymbol (Some doc))"
    by blast
  from e assms(1) have "e < length doc" by auto
  then have "mkSymbol doc ?fr (int e)
      = \<lparr> name = title, kind = Module,
          srange = \<lparr> startLine = int i, startCharacter = 0,
                     endLine = int e, endCharacter = int (length (doc ! e)) \<rparr>,
          selectionRange = \<lparr> startLine = int i, startCharacter = 0, endLine = int i,
                     endCharacter = int (length (doc ! i)) \<rparr> \<rparr>"
    using assms(1) by (simp add: mkSymbol_def lineAt_def)
  with e m show "\<exists>e. (e = length doc - 1 \<or> (i < e \<and> e < length doc \<and> isEndTask (doc ! e)))
            \<and> \<lparr> name = title, kind = Module,
                 srange = \<lparr> startLine = int i, startCharacter = 0,
                            endLine = int e, endCharacter = int (length (doc ! e)) \<rparr>,
                 selectionRange = \<lparr> startLine = int i, startCharacter = 0, endLine = int i,
                            endCharacter = int (length (doc ! i)) \<rparr> \<rparr>
               \<in> set (onDocumentSymbol (Some doc))"
    by metis
next
  assume "unmatchedOpener (map outlineTok doc) i"
  with assms(2) show "\<lparr> name = title, kind = Module,
                srange = \<lparr> startLine = int i, startCharacter = 0,
                           endLine = int (length doc) - 1,
                           endCharacter = int (length (doc ! (length doc - 1))) \<rparr>,
                selectionRange = \<lparr> startLine = int i, startCharacter = 0, endLine = int i,
                           endCharacter = int (length (doc ! i)) \<rparr> \<rparr>
              \<in> set (onDocumentSymbol (Some doc))"
    by (rule outline_unterminated)
qed

text \<open>The theorem on a task that is never closed.\<close>

theorem C9_titled_task_witness:
  \<open>\<lparr> name = ''A'', kind = Module,
      srange = \<lparr> startLine = 0, startCharacter = 0, endLine = 1, endCharacter = 8 \<rparr>,
      selectionRange = \<lparr> startLine = 0, startCharacter = 0, endLine = 0, endCharacter = 14 \<rparr> \<rparr>
    \<in> set (onDocumentSymbol (Some [''start task "A"'', ''say "hi"'']))\<close>
proof -
  let ?doc = \<open>[''start task "A"'', ''say "hi"'']\<close>
  have 0: "0 < length ?doc" by simp
  have 1: "taskMatch (?doc ! 0) = Some ''A''" by code_simp
  have ks: "map outlineTok ?doc = [TOpen, TOther]" by code_simp
  have 2: "unmatchedOpener (map outlineTok ?doc) 0" unfolding ks by code_simp
  from C9_titled_task_in_outline [OF 0 1, THEN conjunct2] 2 show ?thesis by simp
qed

section \<open>Completion outside every context rule\<close>

lemma label_push: "label (push lbl k det ins srt) = lbl"
  by (simp add: push_def)

lemma labels_of_actions:
  "map label (concat (map (\<lambda>(cat, verbs). map (\<lambda>v. push v k (d cat) (f v) srt) verbs) acts))
     = concat (map snd acts)"
  by (induction acts) (auto simp: label_push o_def)

lemma labels_of_catalog:
  "map label (actionItems @ directiveItems @ structuralItems @ operatorItems @ extraItems st)
     = concat (map snd ACTIONS) @ DIRECTIVES @ STRUCTURAL @ OPERATORS @ extraKeywords st"
  unfolding actionItems_def directiveItems_def structuralItems_def operatorItems_def
    extraItems_def
  by (simp only: map_append labels_of_actions map_map o_def label_push map_ident)

text \<open>
  Claim C10.  When the line up to the cursor matches none of the six context patterns
  (blank, after \<open>on\<close>, after \<open>use\<close>, after \<open>repeat n\<close>, after \<open>if\<close>, after \<open>at time\<close>),
  the completion handler answers the whole catalog and nothing else: its labels are all
  the verbs of the action catalog, the directives, the structural keywords, the operators
  and the user's extra keywords, in this order.  The handler's only output is this list of
  items: diagnostics are published by \<open>validateTextDocument\<close> alone.
\<close>

theorem C10_completion_fallback:
  assumes "\<not> ctxBlank (take (character pos) (lineAt doc (line pos)))"
    and "\<not> ctxOn (take (character pos) (lineAt doc (line pos)))"
    and "\<not> ctxUse (take (character pos) (lineAt doc (line pos)))"
    and "\<not> ctxRepeat (take (character pos) (lineAt doc (line pos)))"
    and "\<not> ctxIf (take (character pos) (lineAt doc (line pos)))"
    and "\<not> ctxAtTime (take (character pos) (lineAt doc (line pos)))"
  shows "onCompletion st (Some doc) pos
           = actionItems @ directiveItems @ structuralItems @ operatorItems @ extraItems st
         \<and> map label (onCompletion st (Some doc) pos)
           = concat (map snd ACTIONS) @ DIRECTIVES @ STRUCTURAL @ OPERATORS @ extraKeywords st"
proof -
  have "onCompletion st (Some doc) pos
          = actionItems @ directiveItems @ structuralItems @ operatorItems @ extraItems st"
    using assms by (simp add: onCompletion_def Let_def)
  then show ?thesis by (simp only: labels_of_catalog simp_thms)
qed

text \<open>The theorem with the cursor after \<open>say\<close> and one extra keyword configured.\<close>

theorem C10_completion_fallback_witness:
  "map label (onCompletion (defaultSettings \<lparr> extraKeywords := [''frobnicate''] \<rparr>)
                (Some [''  say hello'']) \<lparr> line = 0, character = 6 \<rparr>)
     = concat (map snd ACTIONS) @ DIRECTIVES @ STRUCTURAL @ OPERATORS @ [''frobnicate'']"
proof -
  let ?doc = "[''  say hello'']"
  let ?pos = "\<lparr> line = 0, character = 6 \<rparr>"
  have 1: "\<not> ctxBlank (take (character ?pos) (lineAt ?doc (line ?pos)))" by code_simp
  have 2: "\<not> ctxOn (take (character ?pos) (lineAt ?doc (line ?pos)))" by code_simp
  have 3: "\<not> ctxUse (take (character ?pos) (lineAt ?doc (line ?pos)))" by code_simp
  have 4: "\<not> ctxRepeat (take (character ?pos) (lineAt ?doc (line ?pos)))" by code_simp
  have 5: "\<not> ctxIf (take (character ?pos) (lineAt ?doc (line ?pos)))" by code_simp
  have 6: "\<not> ctxAtTime (take (character ?pos) (lineAt ?doc (line ?pos)))" by code_simp
  have "map label (onCompletion (defaultSettings \<lparr> extraKeywords := [''frobnicate''] \<rparr>)
                     (Some ?doc) ?pos)
          = concat (map snd ACTIONS) @ DIRECTIVES @ STRUCTURAL @ OPERATORS
              @ extraKeywords (defaultSettings \<lparr> extraKeywords := [''frobnicate''] \<rparr>)"
    using C10_completion_fallback [OF 1 2 3 4 5 6] by (rule conjunct2)
  then show ?thesis by simp
qed

end
